theory Spec2Isabelle
  imports Main
begin

section \<open>Data model: the Todo table and the dependency edge table\<close>

text \<open>
  Dates are JavaScript \<^verbatim>\<open>Date\<close> values read from the database; they are compared and
  maximised through \<^verbatim>\<open>getTime()\<close>, so a date is its number of milliseconds since the epoch.
  A nullable column is an \<open>option\<close>. The field \<^verbatim>\<open>id\<close> is named \<open>id_todo\<close> because \<open>id\<close> is
  the identity function of HOL.
\<close>

type_synonym date = int

record todo =
  id_todo :: int
  title :: string
  dueDate :: "date option"
  imageUrl :: "string option"
  imageId :: "string option"
  createdAt :: date
  earliestStart :: "date option"
  isCritical :: bool

text \<open>
  The store is the table \<^verbatim>\<open>Todo\<close> (rows in table order) and the relation table
  \<^verbatim>\<open>_TodoDependencies\<close>: a pair \<open>(a, b)\<close> says that todo \<open>a\<close> depends on todo \<open>b\<close>.
\<close>

record store =
  todos :: "todo list"
  todoDependencies :: "(int \<times> int) list"

datatype error = RecordNotFound

section \<open>The queries and updates the route handlers issue\<close>

definition findUnique :: "store \<Rightarrow> int \<Rightarrow> todo option" where
  "findUnique s i = find (\<lambda>t. id_todo t = i) (todos s)"

text \<open>
  \<^verbatim>\<open>include: { dependencies: true }\<close> joins the relation table with the Todo table: the
  result holds rows of the Todo table only, here in table order.
\<close>

definition dependencies :: "store \<Rightarrow> int \<Rightarrow> todo list" where
  "dependencies s i = filter (\<lambda>t. (i, id_todo t) \<in> set (todoDependencies s)) (todos s)"

definition dependents :: "store \<Rightarrow> int \<Rightarrow> todo list" where
  "dependents s i = filter (\<lambda>t. (id_todo t, i) \<in> set (todoDependencies s)) (todos s)"

definition updateMany_isCritical :: "store \<Rightarrow> bool \<Rightarrow> store" where
  "updateMany_isCritical s b = s\<lparr>todos := map (\<lambda>t. t\<lparr>isCritical := b\<rparr>) (todos s)\<rparr>"

text \<open>An \<^verbatim>\<open>update\<close> of a row that does not exist throws.\<close>

definition update_isCritical :: "store \<Rightarrow> int \<Rightarrow> bool \<Rightarrow> error + store" where
  "update_isCritical s i b =
     (case findUnique s i of
        None \<Rightarrow> Inl RecordNotFound
      | Some _ \<Rightarrow>
          Inr (s\<lparr>todos := map (\<lambda>t. if id_todo t = i then t\<lparr>isCritical := b\<rparr> else t) (todos s)\<rparr>))"

definition update_earliestStart :: "store \<Rightarrow> int \<Rightarrow> date option \<Rightarrow> error + store" where
  "update_earliestStart s i v =
     (case findUnique s i of
        None \<Rightarrow> Inl RecordNotFound
      | Some _ \<Rightarrow>
          Inr (s\<lparr>todos := map (\<lambda>t. if id_todo t = i then t\<lparr>earliestStart := v\<rparr> else t) (todos s)\<rparr>))"

text \<open>
  \<^verbatim>\<open>connect\<close> inserts one row \<open>(i, d)\<close> per listed id into the relation table. Both columns
  are foreign keys into the Todo table, so connecting a todo that does not exist throws and
  the whole update is rolled back; the unique index keeps one copy of a pair.
\<close>

definition update_connect :: "store \<Rightarrow> int \<Rightarrow> int list \<Rightarrow> error + store" where
  "update_connect s i ds =
     (if findUnique s i = None \<or> (\<exists>d \<in> set ds. findUnique s d = None)
      then Inl RecordNotFound
      else Inr (s\<lparr>todoDependencies :=
                   todoDependencies s @
                   remdups (filter (\<lambda>e. e \<notin> set (todoDependencies s)) (map (Pair i) ds))\<rparr>))"

text \<open>\<^verbatim>\<open>disconnect\<close> deletes the listed pairs; a pair that is not there is skipped.\<close>

definition update_disconnect :: "store \<Rightarrow> int \<Rightarrow> int list \<Rightarrow> error + store" where
  "update_disconnect s i ds =
     (if findUnique s i = None then Inl RecordNotFound
      else Inr (s\<lparr>todoDependencies :=
                   filter (\<lambda>e. \<not> (fst e = i \<and> snd e \<in> set ds)) (todoDependencies s)\<rparr>))"

definition ids :: "store \<Rightarrow> int set" where
  "ids s = id_todo ` set (todos s)"

section \<open>hasCircularDependencies\<close>

text \<open>
  The two sets \<^verbatim>\<open>visited\<close> and \<^verbatim>\<open>recursionStack\<close> are shared by all calls of the inner
  \<^verbatim>\<open>dfs\<close>; the model threads them through. \<open>dfs_loop\<close> is the \<^verbatim>\<open>for\<close> loop over the
  dependencies of the current todo. The parameter \<^verbatim>\<open>todoId\<close> of the source is never read.
\<close>

record dfs_state =
  visited :: "int set"
  recursionStack :: "int set"

function dfs :: "store \<Rightarrow> int \<Rightarrow> int \<Rightarrow> dfs_state \<Rightarrow> bool \<times> dfs_state"
  and dfs_loop :: "store \<Rightarrow> int \<Rightarrow> int \<Rightarrow> todo list \<Rightarrow> dfs_state \<Rightarrow> bool \<times> dfs_state"
where
  "dfs s newDependencyId currentId st =
     (if currentId \<in> recursionStack st then (True, st)
      else if currentId \<in> visited st then (False, st)
      else
        let st1 = st\<lparr>visited := insert currentId (visited st),
                     recursionStack := insert currentId (recursionStack st)\<rparr>
        in case findUnique s currentId of
             None \<Rightarrow> (False, st1)
           | Some _ \<Rightarrow> dfs_loop s newDependencyId currentId (dependencies s currentId) st1)"
| "dfs_loop s newDependencyId currentId [] st =
     (False, st\<lparr>recursionStack := recursionStack st - {currentId}\<rparr>)"
| "dfs_loop s newDependencyId currentId (dependency # rest) st =
     (if id_todo dependency = newDependencyId then (True, st)
      else case dfs s newDependencyId (id_todo dependency) st of
             (True, st') \<Rightarrow> (True, st')
           | (False, st') \<Rightarrow> dfs_loop s newDependencyId currentId rest st')"
  by pat_completeness auto


definition hasCircularDependencies :: "store \<Rightarrow> int \<Rightarrow> int \<Rightarrow> bool" where
  "hasCircularDependencies s todoId newDependencyId =
     fst (dfs s newDependencyId newDependencyId \<lparr>visited = {}, recursionStack = {}\<rparr>)"

section \<open>calculateEarliestStart\<close>

text \<open>
  The source recurses on every dependency with no guard. The first argument bounds the depth
  of the recursion: \<open>None\<close> says that the call has not returned within that depth, and
  \<open>Some r\<close> that it returned \<open>r\<close>, itself \<^verbatim>\<open>null\<close> (\<open>None\<close>) or a date. A \<^verbatim>\<open>Date\<close> is
  truthy, so \<^verbatim>\<open>a || b\<close> is \<open>b\<close> only when \<open>a\<close> is \<^verbatim>\<open>null\<close>.
\<close>

text \<open>Line 63: \<^verbatim>\<open>depEarliestStart || dep.dueDate || dep.createdAt\<close>.\<close>

definition dependencyDate :: "date option \<Rightarrow> todo \<Rightarrow> date" where
  "dependencyDate depEarliestStart dep =
     (case depEarliestStart of
        Some e \<Rightarrow> e
      | None \<Rightarrow> (case dueDate dep of Some d \<Rightarrow> d | None \<Rightarrow> createdAt dep))"

fun calculateEarliestStart :: "nat \<Rightarrow> store \<Rightarrow> int \<Rightarrow> date option option" where
  "calculateEarliestStart 0 s todoId = None"
| "calculateEarliestStart (Suc fuel) s todoId =
     (case findUnique s todoId of
        None \<Rightarrow> Some None
      | Some todo \<Rightarrow>
          (case dependencies s todoId of
             [] \<Rightarrow> Some (Some (createdAt todo))
           | dep0 # deps \<Rightarrow>
               (case those (map (\<lambda>dep.
                        case calculateEarliestStart fuel s (id_todo dep) of
                          None \<Rightarrow> None
                        | Some depEarliestStart \<Rightarrow> Some (dependencyDate depEarliestStart dep))
                      (dep0 # deps)) of
                  None \<Rightarrow> None
                | Some dependencyDates \<Rightarrow> Some (Some (Max (set dependencyDates))))))"

section \<open>markCriticalPath and updateCriticalPathStatus\<close>

datatype completion = Done | Threw error

text \<open>
  The loop of \<^verbatim>\<open>markCriticalPath\<close> starts from the first dependency and replaces it only by
  a strictly later one; \<^verbatim>\<open>dep.dueDate || dep.createdAt\<close> is the date it compares.
\<close>

definition depDate :: "todo \<Rightarrow> date" where
  "depDate dep = (case dueDate dep of Some d \<Rightarrow> d | None \<Rightarrow> createdAt dep)"

fun latestDependency :: "todo \<Rightarrow> todo list \<Rightarrow> todo" where
  "latestDependency latest [] = latest"
| "latestDependency latest (dep # deps) =
     (if depDate dep > depDate latest then latestDependency dep deps
      else latestDependency latest deps)"

text \<open>
  The result is the store as the call leaves it, with \<open>Done\<close>, or \<open>Threw e\<close> when an update
  threw; \<open>None\<close> says that the recursion has not returned within the depth given.
\<close>

fun markCriticalPath :: "nat \<Rightarrow> store \<Rightarrow> int \<Rightarrow> (completion \<times> store) option" where
  "markCriticalPath 0 s todoId = None"
| "markCriticalPath (Suc fuel) s todoId =
     (case update_isCritical s todoId True of
        Inl e \<Rightarrow> Some (Threw e, s)
      | Inr s1 \<Rightarrow>
          (case findUnique s1 todoId of
             None \<Rightarrow> Some (Done, s1)
           | Some todo \<Rightarrow>
               (case dependencies s1 todoId of
                  [] \<Rightarrow> Some (Done, s1)
                | dep0 # deps \<Rightarrow>
                    markCriticalPath fuel s1 (id_todo (latestDependency dep0 (dep0 # deps))))))"

fun markEndNodes :: "nat \<Rightarrow> store \<Rightarrow> todo list \<Rightarrow> (completion \<times> store) option" where
  "markEndNodes fuel s [] = Some (Done, s)"
| "markEndNodes fuel s (endNode # rest) =
     (case markCriticalPath fuel s (id_todo endNode) of
        None \<Rightarrow> None
      | Some (Threw e, s') \<Rightarrow> Some (Threw e, s')
      | Some (Done, s') \<Rightarrow> markEndNodes fuel s' rest)"

definition updateCriticalPathStatus :: "nat \<Rightarrow> store \<Rightarrow> (completion \<times> store) option" where
  "updateCriticalPathStatus fuel s =
     (let endNodes = filter (\<lambda>todo. dependents s (id_todo todo) = []) (todos s);
          s1 = updateMany_isCritical s False
      in markEndNodes fuel s1 endNodes)"

section \<open>The route handlers POST and DELETE\<close>

text \<open>
  A response is its status and its JSON body. The handlers take the result of
  \<^verbatim>\<open>parseInt(params.id)\<close> (\<open>None\<close> for \<^verbatim>\<open>NaN\<close>) and the field \<^verbatim>\<open>dependencyIds\<close> of the body
  (\<open>None\<close> when it is not an array).
\<close>

datatype response =
    InvalidID                     \<comment> \<open>400 \<^verbatim>\<open>Invalid ID\<close>\<close>
  | NotAnArray                    \<comment> \<open>400 \<^verbatim>\<open>dependencyIds must be an array\<close>\<close>
  | TodoNotFound                  \<comment> \<open>404 \<^verbatim>\<open>Todo not found\<close>\<close>
  | SelfDependency                \<comment> \<open>400 \<^verbatim>\<open>Cannot add self as dependency\<close>\<close>
  | CycleDetected int             \<comment> \<open>400 \<^verbatim>\<open>Adding dependency N would create a circular dependency\<close>\<close>
  | DependenciesAdded             \<comment> \<open>200 \<^verbatim>\<open>Dependencies added successfully\<close>\<close>
  | ErrorAddingDependencies       \<comment> \<open>500 \<^verbatim>\<open>Error adding dependencies\<close>\<close>
  | DependenciesRemoved           \<comment> \<open>200 \<^verbatim>\<open>Dependencies removed successfully\<close>\<close>
  | ErrorRemovingDependencies     \<comment> \<open>500 \<^verbatim>\<open>Error removing dependencies\<close>\<close>

text \<open>The loop of POST over the candidates: the first candidate that fails ends it.\<close>

fun checkDependencies :: "store \<Rightarrow> int \<Rightarrow> int list \<Rightarrow> response option" where
  "checkDependencies s i [] = None"
| "checkDependencies s i (depId # rest) =
     (if depId = i then Some SelfDependency
      else if hasCircularDependencies s i depId then Some (CycleDetected depId)
      else checkDependencies s i rest)"

text \<open>
  The three statements that end both handlers: compute the earliest start of the edited
  todo, write it, recompute the critical path.
\<close>

definition recalculate :: "nat \<Rightarrow> store \<Rightarrow> int \<Rightarrow> (completion \<times> store) option" where
  "recalculate fuel s i =
     (case calculateEarliestStart fuel s i of
        None \<Rightarrow> None
      | Some newEarliestStart \<Rightarrow>
          (case update_earliestStart s i newEarliestStart of
             Inl e \<Rightarrow> Some (Threw e, s)
           | Inr s2 \<Rightarrow> updateCriticalPathStatus fuel s2))"

definition POST :: "nat \<Rightarrow> store \<Rightarrow> int option \<Rightarrow> int list option \<Rightarrow> (response \<times> store) option"
where
  "POST fuel s idParam body =
     (case idParam of
        None \<Rightarrow> Some (InvalidID, s)
      | Some i \<Rightarrow>
          (case body of
             None \<Rightarrow> Some (NotAnArray, s)
           | Some dependencyIds \<Rightarrow>
               (case findUnique s i of
                  None \<Rightarrow> Some (TodoNotFound, s)
                | Some _ \<Rightarrow>
                    (case checkDependencies s i dependencyIds of
                       Some rejection \<Rightarrow> Some (rejection, s)
                     | None \<Rightarrow>
                         (case update_connect s i dependencyIds of
                            Inl e \<Rightarrow> Some (ErrorAddingDependencies, s)
                          | Inr s1 \<Rightarrow>
                              (case recalculate fuel s1 i of
                                 None \<Rightarrow> None
                               | Some (Threw e, s') \<Rightarrow> Some (ErrorAddingDependencies, s')
                               | Some (Done, s') \<Rightarrow> Some (DependenciesAdded, s')))))))"

definition DELETE :: "nat \<Rightarrow> store \<Rightarrow> int option \<Rightarrow> int list option \<Rightarrow> (response \<times> store) option"
where
  "DELETE fuel s idParam body =
     (case idParam of
        None \<Rightarrow> Some (InvalidID, s)
      | Some i \<Rightarrow>
          (case body of
             None \<Rightarrow> Some (NotAnArray, s)
           | Some dependencyIds \<Rightarrow>
               (case update_disconnect s i dependencyIds of
                  Inl e \<Rightarrow> Some (ErrorRemovingDependencies, s)
                | Inr s1 \<Rightarrow>
                    (case recalculate fuel s1 i of
                       None \<Rightarrow> None
                     | Some (Threw e, s') \<Rightarrow> Some (ErrorRemovingDependencies, s')
                     | Some (Done, s') \<Rightarrow> Some (DependenciesRemoved, s')))))"

section \<open>The scenario of three todos\<close>

text \<open>
  \<open>create\<close> is the row that \<^verbatim>\<open>prisma.todo.create\<close> inserts for a title and a due date, with
  the defaults of the table; \<open>day n\<close> is midnight of day \<open>n\<close> in milliseconds. The scenario has
  todo 1 (A, no due date, created on day 1), todo 2 (B, due on day 5) and todo 3 (C), and no
  dependency yet.
\<close>

definition day :: "int \<Rightarrow> date" where
  "day n = n * 86400000"

definition create :: "int \<Rightarrow> string \<Rightarrow> date option \<Rightarrow> date \<Rightarrow> todo" where
  "create i ttl due now =
     \<lparr>id_todo = i, title = ttl, dueDate = due, imageUrl = None, imageId = None,
      createdAt = now, earliestStart = None, isCritical = False\<rparr>"

definition scenario :: "date \<Rightarrow> date \<Rightarrow> store" where
  "scenario createdB createdC =
     \<lparr>todos = [create 1 ''A'' None (day 1),
               create 2 ''B'' (Some (day 5)) createdB,
               create 3 ''C'' None createdC],
      todoDependencies = []\<rparr>"

text \<open>
  The stores the two adds of the scenario lead to: first \<open>C \<rightarrow> B\<close> (todo 3 on todo 2), then
  \<open>B \<rightarrow> A\<close> (todo 2 on todo 1).
\<close>

definition afterFirstAdd :: "date \<Rightarrow> date \<Rightarrow> store" where
  "afterFirstAdd createdB createdC =
     \<lparr>todos = [(create 1 ''A'' None (day 1))\<lparr>isCritical := True\<rparr>,
               (create 2 ''B'' (Some (day 5)) createdB)\<lparr>isCritical := True\<rparr>,
               (create 3 ''C'' None createdC)\<lparr>earliestStart := Some createdB, isCritical := True\<rparr>],
      todoDependencies = [(3, 2)]\<rparr>"

definition afterSecondAdd :: "date \<Rightarrow> date \<Rightarrow> store" where
  "afterSecondAdd createdB createdC =
     \<lparr>todos = [(create 1 ''A'' None (day 1))\<lparr>isCritical := True\<rparr>,
               (create 2 ''B'' (Some (day 5)) createdB)\<lparr>earliestStart := Some (day 1),
                                                         isCritical := True\<rparr>,
               (create 3 ''C'' None createdC)\<lparr>earliestStart := Some createdB, isCritical := True\<rparr>],
      todoDependencies = [(3, 2), (2, 1)]\<rparr>"

text \<open>
  Two more stores over the same three todos. In \<open>aDependsOnB\<close> todo 1 (A) depends on todo 2
  (B): it is the store that adding dependency 2 to todo 1 leaves from the scenario created on
  days 2 and 3. \<open>cyclicStore\<close> has the pair \<open>(2, 1)\<close> as well.
\<close>

definition aDependsOnB :: store where
  "aDependsOnB =
     \<lparr>todos = [(create 1 ''A'' None (day 1))\<lparr>earliestStart := Some (day 2), isCritical := True\<rparr>,
               (create 2 ''B'' (Some (day 5)) (day 2))\<lparr>isCritical := True\<rparr>,
               (create 3 ''C'' None (day 3))\<lparr>isCritical := True\<rparr>],
      todoDependencies = [(1, 2)]\<rparr>"

definition cyclicStore :: store where
  "cyclicStore = aDependsOnB\<lparr>todoDependencies := [(1, 2), (2, 1)]\<rparr>"

section \<open>Observations on a store\<close>

text \<open>
  The pairs the recursions follow: from a todo of the table to each todo the join returns as
  its dependency.
\<close>

definition dependsOn :: "store \<Rightarrow> (int \<times> int) set" where
  "dependsOn s = {(a, b). a \<in> ids s \<and> b \<in> id_todo ` set (dependencies s a)}"

text \<open>
  The creation dates of the todos without dependencies that todo \<open>t\<close> reaches through
  dependencies, \<open>t\<close> itself included.
\<close>

definition sourceDates :: "store \<Rightarrow> int \<Rightarrow> date set" where
  "sourceDates s t =
     {createdAt row | x row.
        (t, x) \<in> (dependsOn s)\<^sup>* \<and> findUnique s x = Some row \<and> dependencies s x = []}"

text \<open>The persisted \<^verbatim>\<open>earliestStart\<close> column of every row but the rows of todo \<open>t\<close>.\<close>

definition otherEarliestStarts :: "int \<Rightarrow> store \<Rightarrow> (int \<times> date option) list" where
  "otherEarliestStarts t s =
     map (\<lambda>x. (id_todo x, earliestStart x)) (filter (\<lambda>x. id_todo x \<noteq> t) (todos s))"

section \<open>Termination of the search\<close>

text \<open>
  Every call that goes on to the loop adds a todo of the table to \<open>visited\<close>, and \<open>visited\<close>
  never shrinks: the search ends on every store, cyclic or not.
\<close>

lemma dfs_visited_mono:
  "dfs_dfs_loop_dom (Inl (s, n, c, st)) \<Longrightarrow> visited st \<subseteq> visited (snd (dfs s n c st))"
  "dfs_dfs_loop_dom (Inr (s, n, c, ds, st)) \<Longrightarrow>
     visited st \<subseteq> visited (snd (dfs_loop s n c ds st))"
proof (induct s n c st and s n c ds st rule: dfs_dfs_loop.pinduct)
  case (1 s n c st)
  then show ?case
    by (auto simp: dfs.psimps Let_def split: option.splits)
next
  case (2 s n c st)
  then show ?case by (simp add: dfs_loop.psimps)
next
  case (3 s n c d rest st)
  show ?case
  proof (cases "id_todo d = n")
    case True
    with 3(1) show ?thesis by (simp add: dfs_loop.psimps)
  next
    case False
    obtain b st' where r: "dfs s n (id_todo d) st = (b, st')"
      by (cases "dfs s n (id_todo d) st")
    from 3(2)[OF False] r have m: "visited st \<subseteq> visited st'" by simp
    show ?thesis
    proof (cases b)
      case True
      with 3(1) False r m show ?thesis by (simp add: dfs_loop.psimps)
    next
      case b: False
      from 3(3)[OF False r[symmetric]] b
      have "visited st' \<subseteq> visited (snd (dfs_loop s n c rest st'))"
        by simp
      with 3(1) False r m b show ?thesis by (auto simp add: dfs_loop.psimps)
    qed
  qed
qed

lemma findUnique_ids: "findUnique s i = Some t \<Longrightarrow> i \<in> ids s"
  by (auto simp: findUnique_def ids_def find_Some_iff)

termination dfs
proof (relation "inv_image (finite_psubset <*lex*> less_than <*lex*> less_than)
    (\<lambda>x. case x of
       Inl (s, n, c, st) \<Rightarrow> (ids s - visited st, 0::nat, 0::nat)
     | Inr (s, n, c, ds, st) \<Rightarrow> (ids s - visited st, 1::nat, length ds))", goal_cases)
  case 1
  show ?case by (intro wf_inv_image wf_lex_prod wf_finite_psubset wf_less_than)
next
  case (2 s n c st st1 t)
  then show ?case
    by (auto simp: finite_psubset_def ids_def dest!: findUnique_ids)
next
  case (3 s n c d rest st)
  then show ?case by simp
next
  case (4 s n c d rest st x st')
  from 4(2) have "snd (dfs s n (id_todo d) st) = st'" by (metis snd_conv)
  with dfs_visited_mono(1)[OF 4(4)] have "visited st \<subseteq> visited st'" by simp
  then have "ids s - visited st' \<subseteq> ids s - visited st" by blast
  then have "ids s - visited st' \<subset> ids s - visited st \<or>
             ids s - visited st' = ids s - visited st"
    by blast
  then show ?case
    by (auto simp: finite_psubset_def ids_def)
qed

section \<open>Facts about stores, lists and the graph of dependencies\<close>

lemma findUnique_None_ids: "findUnique s i = None \<longleftrightarrow> i \<notin> ids s"
  by (auto simp: findUnique_def ids_def find_None_iff)

lemma dependencies_ids: "d \<in> set (dependencies s c) \<Longrightarrow> id_todo d \<in> ids s"
  by (auto simp: dependencies_def ids_def)

lemma ids_cong: "map id_todo (todos s') = map id_todo (todos s) \<Longrightarrow> ids s' = ids s"
proof -
  assume "map id_todo (todos s') = map id_todo (todos s)"
  then have "set (map id_todo (todos s')) = set (map id_todo (todos s))" by (rule arg_cong)
  then show ?thesis by (simp add: ids_def)
qed

lemma dependsOn_edges: "dependsOn s \<subseteq> set (todoDependencies s)"
  by (auto simp: dependsOn_def dependencies_def)

lemma dependsOn_alt:
  "dependsOn s = {(a, b). a \<in> ids s \<and> b \<in> ids s \<and> (a, b) \<in> set (todoDependencies s)}"
  by (auto simp: dependsOn_def dependencies_def ids_def)

lemma dependsOn_cong:
  "ids s' = ids s \<Longrightarrow> todoDependencies s' = todoDependencies s \<Longrightarrow> dependsOn s' = dependsOn s"
  by (simp add: dependsOn_alt)

lemma finite_dependsOn: "finite (dependsOn s)"
proof (rule finite_subset)
  show "dependsOn s \<subseteq> ids s \<times> ids s"
    by (auto simp: dependsOn_def dest: dependencies_ids)
  show "finite (ids s \<times> ids s)" by (simp add: ids_def)
qed

lemma acyclic_no_reachable_cycle:
  assumes "acyclic (set (todoDependencies s))"
  shows "\<not> (\<exists>c. (t, c) \<in> (dependsOn s)\<^sup>* \<and> (c, c) \<in> (dependsOn s)\<^sup>+)"
proof
  assume "\<exists>c. (t, c) \<in> (dependsOn s)\<^sup>* \<and> (c, c) \<in> (dependsOn s)\<^sup>+"
  then obtain c where "(c, c) \<in> (dependsOn s)\<^sup>+" by blast
  then have "(c, c) \<in> (set (todoDependencies s))\<^sup>+"
    using trancl_mono[OF _ dependsOn_edges] by blast
  with assms show False by (simp add: acyclic_def)
qed

lemma afterSecondAdd_acyclic: "acyclic (set (todoDependencies (afterSecondAdd b c)))"
proof (rule acyclicI_order[where f = "\<lambda>x. nat x"])
  fix x y assume "(x, y) \<in> set (todoDependencies (afterSecondAdd b c))"
  then show "nat y < nat x" by (auto simp: afterSecondAdd_def)
qed

lemma cyclicStore_cycle:
  "(2, 2) \<in> (dependsOn cyclicStore)\<^sup>+" "(1, 2) \<in> (dependsOn cyclicStore)\<^sup>*"
proof -
  have a: "(1, 2) \<in> dependsOn cyclicStore"
    by (simp add: dependsOn_def ids_def cyclicStore_def aDependsOnB_def create_def dependencies_def)
  have b: "(2, 1) \<in> dependsOn cyclicStore"
    by (simp add: dependsOn_def ids_def cyclicStore_def aDependsOnB_def create_def dependencies_def)
  from b a show "(2, 2) \<in> (dependsOn cyclicStore)\<^sup>+" by (rule trancl_into_trancl2[OF _ r_into_trancl])
  from a show "(1, 2) \<in> (dependsOn cyclicStore)\<^sup>*" by (rule r_into_rtrancl)
qed

lemma those_map_member:
  "those (map f xs) = Some ys \<Longrightarrow> x \<in> set xs \<Longrightarrow> \<exists>y \<in> set ys. f x = Some y"
proof (induction xs arbitrary: ys)
  case Nil
  then show ?case by simp
next
  case (Cons a xs)
  then show ?case by (cases "f a"; cases "those (map f xs)") auto
qed

lemma those_map_None:
  "d \<in> set xs \<Longrightarrow> f d = None \<Longrightarrow> those (map f xs) = None"
  by (induction xs) (auto split: option.splits)

lemma those_map_total:
  "\<forall>d \<in> set xs. f d \<noteq> None \<Longrightarrow> \<exists>ys. those (map f xs) = Some ys"
  by (induction xs) (auto split: option.splits)

lemma latestDependency_in: "latestDependency l ds \<in> insert l (set ds)"
  by (induction ds arbitrary: l) auto

section \<open>When calculateEarliestStart returns, and what\<close>

text \<open>A call that has returned within some depth returns the same with any larger depth.\<close>

lemma calculateEarliestStart_mono:
  "calculateEarliestStart n s t = Some r \<Longrightarrow> n \<le> m \<Longrightarrow> calculateEarliestStart m s t = Some r"
proof (induction n arbitrary: m t r)
  case 0
  then show ?case by simp
next
  case (Suc n)
  then obtain m' where m: "m = Suc m'" and le: "n \<le> m'" by (cases m) auto
  show ?case
  proof (cases "findUnique s t")
    case None
    with Suc.prems m show ?thesis by simp
  next
    case (Some todo)
    show ?thesis
    proof (cases "dependencies s t")
      case Nil
      with Suc.prems m Some show ?thesis by simp
    next
      case (Cons d ds)
      let ?f = "\<lambda>k dep. case calculateEarliestStart k s (id_todo dep) of
                          None \<Rightarrow> None
                        | Some depEarliestStart \<Rightarrow> Some (dependencyDate depEarliestStart dep)"
      from Suc.prems(1) Some Cons obtain dates where
        d: "those (map (?f n) (d # ds)) = Some dates" and r: "r = Some (Max (set dates))"
        by (auto split: option.splits)
      have eq: "map (?f m') (d # ds) = map (?f n) (d # ds)"
      proof (rule map_cong[OF refl])
        fix x assume "x \<in> set (d # ds)"
        from those_map_member[OF d this] obtain y where "?f n x = Some y" by blast
        then obtain e where "calculateEarliestStart n s (id_todo x) = Some e"
          by (auto split: option.splits)
        with Suc.IH[OF this le] show "?f m' x = ?f n x" by simp
      qed
      have "those (map (?f m') (d # ds)) = Some dates" unfolding eq by (rule d)
      then show ?thesis unfolding m r calculateEarliestStart.simps Some Cons
        by (simp only: option.case list.case)
    qed
  qed
qed

lemma calculateEarliestStart_on_cycle:
  assumes "(c, c) \<in> (dependsOn s)\<^sup>+"
  shows "(t, c) \<in> (dependsOn s)\<^sup>* \<Longrightarrow> calculateEarliestStart n s t = None"
proof (induction n arbitrary: t)
  case 0
  show ?case by simp
next
  case (Suc n)
  from Suc.prems assms have "(t, c) \<in> (dependsOn s)\<^sup>+" by (rule rtrancl_trancl_trancl)
  then obtain y where ty: "(t, y) \<in> dependsOn s" and yc: "(y, c) \<in> (dependsOn s)\<^sup>*"
    by (auto dest: tranclD)
  from ty obtain d where t: "t \<in> ids s" and d: "d \<in> set (dependencies s t)" and y: "y = id_todo d"
    by (auto simp: dependsOn_def)
  from t obtain todo where f: "findUnique s t = Some todo"
    by (cases "findUnique s t") (auto simp: findUnique_None_ids)
  from d obtain d0 ds where deps: "dependencies s t = d0 # ds"
    by (cases "dependencies s t") auto
  let ?f = "\<lambda>dep. case calculateEarliestStart n s (id_todo dep) of
                     None \<Rightarrow> None
                   | Some depEarliestStart \<Rightarrow> Some (dependencyDate depEarliestStart dep)"
  from Suc.IH[OF yc] y have "?f d = None" by simp
  moreover from d deps have "d \<in> set (d0 # ds)" by simp
  ultimately have "those (map ?f (d0 # ds)) = None" by (rule those_map_None[rotated])
  then show ?case unfolding calculateEarliestStart.simps f deps
    by (simp only: option.case list.case)
qed

lemma common_fuel:
  "\<forall>d \<in> set ds. \<exists>n r. calculateEarliestStart n s (id_todo d) = Some r \<Longrightarrow>
   \<exists>N. \<forall>d \<in> set ds. \<exists>r. calculateEarliestStart N s (id_todo d) = Some r"
proof (induction ds)
  case Nil
  then show ?case by simp
next
  case (Cons a ds)
  then obtain N where N: "\<forall>d \<in> set ds. \<exists>r. calculateEarliestStart N s (id_todo d) = Some r"
    by auto
  from Cons.prems obtain n r where n: "calculateEarliestStart n s (id_todo a) = Some r" by auto
  have "\<forall>d \<in> set (a # ds). \<exists>r. calculateEarliestStart (max n N) s (id_todo d) = Some r"
  proof
    fix d assume "d \<in> set (a # ds)"
    then consider "d = a" | "d \<in> set ds" by auto
    then show "\<exists>r. calculateEarliestStart (max n N) s (id_todo d) = Some r"
    proof cases
      case 1
      with calculateEarliestStart_mono[OF n, of "max n N"] show ?thesis by simp
    next
      case 2
      with N obtain r' where "calculateEarliestStart N s (id_todo d) = Some r'" by auto
      from calculateEarliestStart_mono[OF this, of "max n N"] show ?thesis by simp
    qed
  qed
  then show ?case ..
qed

lemma calculateEarliestStart_returns:
  assumes nocycle: "\<not> (\<exists>c. (t, c) \<in> (dependsOn s)\<^sup>* \<and> (c, c) \<in> (dependsOn s)\<^sup>+)"
  shows "\<exists>n r. calculateEarliestStart n s t = Some r"
proof -
  define bad where "bad x \<longleftrightarrow> (\<exists>c. (x, c) \<in> (dependsOn s)\<^sup>* \<and> (c, c) \<in> (dependsOn s)\<^sup>+)" for x
  define r where "r = {(y, x). (x, y) \<in> dependsOn s \<and> \<not> bad x}"
  have sub: "r \<subseteq> (dependsOn s)\<inverse>" by (auto simp: r_def)
  have "finite r" using sub finite_dependsOn[of s] by (auto intro: finite_subset)
  moreover have "acyclic r"
  proof (rule acyclicI, rule allI, rule notI)
    fix a assume a: "(a, a) \<in> r\<^sup>+"
    with trancl_mono[OF _ sub] have "(a, a) \<in> ((dependsOn s)\<inverse>)\<^sup>+" by blast
    then have "(a, a) \<in> (dependsOn s)\<^sup>+" by (simp add: trancl_converse)
    then have "bad a" by (auto simp: bad_def)
    moreover from a obtain z where "(z, a) \<in> r" by (auto elim: tranclE)
    ultimately show False by (simp add: r_def)
  qed
  ultimately have "wf r" by (rule finite_acyclic_wf)
  then have "\<not> bad x \<longrightarrow> (\<exists>n res. calculateEarliestStart n s x = Some res)" for x
  proof (induction x rule: wf_induct_rule)
    case (less x)
    show ?case
    proof
      assume nb: "\<not> bad x"
      show "\<exists>n res. calculateEarliestStart n s x = Some res"
      proof (cases "findUnique s x")
        case None
        then have "calculateEarliestStart (Suc 0) s x = Some None" by simp
        then show ?thesis by blast
      next
        case (Some todo)
        then have x: "x \<in> ids s" by (rule findUnique_ids)
        show ?thesis
        proof (cases "dependencies s x")
          case Nil
          with Some have "calculateEarliestStart (Suc 0) s x = Some (Some (createdAt todo))" by simp
          then show ?thesis by blast
        next
          case (Cons d0 ds)
          have "\<forall>d \<in> set (d0 # ds). \<exists>n res. calculateEarliestStart n s (id_todo d) = Some res"
          proof
            fix d assume "d \<in> set (d0 # ds)"
            with Cons x have e: "(x, id_todo d) \<in> dependsOn s" by (auto simp: dependsOn_def)
            have "\<not> bad (id_todo d)"
            proof
              assume "bad (id_todo d)"
              then obtain c where "(id_todo d, c) \<in> (dependsOn s)\<^sup>*" "(c, c) \<in> (dependsOn s)\<^sup>+"
                by (auto simp: bad_def)
              with e have "bad x" by (auto simp: bad_def intro: converse_rtrancl_into_rtrancl)
              with nb show False ..
            qed
            moreover from e nb have "(id_todo d, x) \<in> r" by (simp add: r_def)
            ultimately show "\<exists>n res. calculateEarliestStart n s (id_todo d) = Some res"
              using less.IH by blast
          qed
          from common_fuel[OF this] obtain N where
            N: "\<forall>d \<in> set (d0 # ds). \<exists>res. calculateEarliestStart N s (id_todo d) = Some res" ..
          let ?f = "\<lambda>dep. case calculateEarliestStart N s (id_todo dep) of
                     None \<Rightarrow> None
                   | Some depEarliestStart \<Rightarrow> Some (dependencyDate depEarliestStart dep)"
          have "\<forall>d \<in> set (d0 # ds). ?f d \<noteq> None"
          proof
            fix d assume "d \<in> set (d0 # ds)"
            with N obtain res where "calculateEarliestStart N s (id_todo d) = Some res" by blast
            then show "?f d \<noteq> None" by simp
          qed
          from those_map_total[OF this] obtain dates where
            "those (map ?f (d0 # ds)) = Some dates" ..
          then have "calculateEarliestStart (Suc N) s x = Some (Some (Max (set dates)))"
            unfolding calculateEarliestStart.simps Some Cons
            by (simp only: option.case list.case)
          then show ?thesis by blast
        qed
      qed
    qed
  qed
  moreover from nocycle have "\<not> bad t" by (simp add: bad_def)
  ultimately show ?thesis by blast
qed

text \<open>
  For a todo of the table the result is never \<^verbatim>\<open>null\<close>, so the due date and the creation
  date of a dependency in \<open>dependencyDate\<close> are never reached from \<open>calculateEarliestStart\<close>.
\<close>

lemma calculateEarliestStart_not_null:
  assumes "findUnique s t = Some todo" and "calculateEarliestStart fuel s t = Some r"
  shows "r \<noteq> None"
proof (cases fuel)
  case 0
  with assms(2) show ?thesis by simp
next
  case (Suc n)
  with assms show ?thesis
    by (cases "dependencies s t") (auto split: option.splits)
qed

text \<open>
  What the recursion computes: the latest creation date among the todos without dependencies
  that the todo reaches.
\<close>

lemma findUnique_in_todos: "findUnique s x = Some row \<Longrightarrow> row \<in> set (todos s)"
  by (auto simp: findUnique_def find_Some_iff)

lemma finite_sourceDates: "finite (sourceDates s t)"
proof (rule finite_subset)
  show "sourceDates s t \<subseteq> createdAt ` set (todos s)"
    by (auto simp: sourceDates_def dest: findUnique_in_todos)
  show "finite (createdAt ` set (todos s))" by simp
qed

lemma sourceDates_source:
  assumes "findUnique s t = Some todo" and "dependencies s t = []"
  shows "sourceDates s t = {createdAt todo}"
proof -
  have only: "x = t" if "(t, x) \<in> (dependsOn s)\<^sup>*" for x
    using that assms(2) by (induction rule: rtrancl_induct) (auto simp: dependsOn_def)
  show ?thesis
  proof (intro equalityI subsetI)
    fix d assume "d \<in> sourceDates s t"
    then obtain x row where "(t, x) \<in> (dependsOn s)\<^sup>*" "findUnique s x = Some row"
      "d = createdAt row" by (auto simp: sourceDates_def)
    with only[of x] assms(1) show "d \<in> {createdAt todo}" by simp
  next
    fix d assume "d \<in> {createdAt todo}"
    with assms show "d \<in> sourceDates s t" by (auto simp: sourceDates_def)
  qed
qed

lemma sourceDates_step:
  assumes "findUnique s t = Some todo" and "dependencies s t \<noteq> []"
  shows "sourceDates s t = (\<Union>dep \<in> set (dependencies s t). sourceDates s (id_todo dep))"
proof (intro equalityI subsetI)
  fix d assume "d \<in> sourceDates s t"
  then obtain x row where x: "(t, x) \<in> (dependsOn s)\<^sup>*" "findUnique s x = Some row"
    "dependencies s x = []" "d = createdAt row"
    by (auto simp: sourceDates_def)
  from x(3) assms(2) have "x \<noteq> t" by auto
  with x(1) obtain y where y: "(t, y) \<in> dependsOn s" "(y, x) \<in> (dependsOn s)\<^sup>*"
    by (auto elim: converse_rtranclE)
  from y(1) obtain dep where "dep \<in> set (dependencies s t)" "y = id_todo dep"
    by (auto simp: dependsOn_def)
  with y(2) x(2,3,4) show "d \<in> (\<Union>dep \<in> set (dependencies s t). sourceDates s (id_todo dep))"
    by (auto simp: sourceDates_def)
next
  fix d assume "d \<in> (\<Union>dep \<in> set (dependencies s t). sourceDates s (id_todo dep))"
  then obtain dep x row where dep: "dep \<in> set (dependencies s t)"
    and x: "(id_todo dep, x) \<in> (dependsOn s)\<^sup>*" "findUnique s x = Some row"
    "dependencies s x = []" "d = createdAt row"
    by (auto simp: sourceDates_def)
  from assms(1) have "t \<in> ids s" by (rule findUnique_ids)
  with dep have "(t, id_todo dep) \<in> dependsOn s" by (auto simp: dependsOn_def)
  from this x(1) have "(t, x) \<in> (dependsOn s)\<^sup>*" by (rule converse_rtrancl_into_rtrancl)
  with x(2,3,4) show "d \<in> sourceDates s t" by (auto simp: sourceDates_def)
qed

lemma Max_Union_Max:
  fixes S :: "'a \<Rightarrow> int set"
  assumes "finite I" "I \<noteq> {}" "\<And>i. i \<in> I \<Longrightarrow> finite (S i) \<and> S i \<noteq> {}"
  shows "Max (\<Union>i \<in> I. S i) = Max ((\<lambda>i. Max (S i)) ` I)"
proof (rule Max_eqI)
  show "finite (\<Union>i \<in> I. S i)" using assms by auto
  fix y assume "y \<in> (\<Union>i \<in> I. S i)"
  then obtain j where j: "j \<in> I" "y \<in> S j" by auto
  with assms(3) have "y \<le> Max (S j)" by auto
  also from j(1) assms(1) have "Max (S j) \<le> Max ((\<lambda>i. Max (S i)) ` I)" by auto
  finally show "y \<le> Max ((\<lambda>i. Max (S i)) ` I)" .
next
  from assms(1,2) have "Max ((\<lambda>i. Max (S i)) ` I) \<in> (\<lambda>i. Max (S i)) ` I"
    by (intro Max_in) auto
  then obtain i where i: "i \<in> I" "Max ((\<lambda>i. Max (S i)) ` I) = Max (S i)" by auto
  from assms(3)[OF i(1)] have "Max (S i) \<in> S i" by (intro Max_in) auto
  with i show "Max ((\<lambda>i. Max (S i)) ` I) \<in> (\<Union>i \<in> I. S i)" by auto
qed

lemma those_map_eq:
  "those (map f xs) = Some ys \<Longrightarrow> (\<And>x. x \<in> set xs \<Longrightarrow> f x = Some (g x)) \<Longrightarrow> ys = map g xs"
proof (induction xs arbitrary: ys)
  case Nil
  then show ?case by simp
next
  case (Cons a xs)
  then show ?case by (cases "those (map f xs)") (auto split: option.splits)
qed

lemma calculateEarliestStart_closed_form:
  "findUnique s t = Some todo \<Longrightarrow> calculateEarliestStart fuel s t = Some r \<Longrightarrow>
   r = Some (Max (sourceDates s t)) \<and> sourceDates s t \<noteq> {}"
proof (induction fuel arbitrary: t todo r)
  case 0
  then show ?case by simp
next
  case (Suc n)
  show ?case
  proof (cases "dependencies s t")
    case Nil
    with Suc.prems sourceDates_source[OF Suc.prems(1) Nil] show ?thesis by simp
  next
    case (Cons d0 ds)
    let ?f = "\<lambda>dep. case calculateEarliestStart n s (id_todo dep) of
                     None \<Rightarrow> None
                   | Some depEarliestStart \<Rightarrow> Some (dependencyDate depEarliestStart dep)"
    let ?g = "\<lambda>dep. Max (sourceDates s (id_todo dep))"
    from Suc.prems Cons obtain dates where
      d: "those (map ?f (d0 # ds)) = Some dates" and r: "r = Some (Max (set dates))"
      by (auto split: option.splits)
    have each: "?f dep = Some (?g dep) \<and> sourceDates s (id_todo dep) \<noteq> {}"
      if "dep \<in> set (d0 # ds)" for dep
    proof -
      from those_map_member[OF d that] obtain y where "?f dep = Some y" by blast
      then obtain de where de: "calculateEarliestStart n s (id_todo dep) = Some de"
        by (auto split: option.splits)
      from that Cons have "dep \<in> set (dependencies s t)" by simp
      then have "id_todo dep \<in> ids s" by (rule dependencies_ids)
      then obtain row where "findUnique s (id_todo dep) = Some row"
        by (cases "findUnique s (id_todo dep)") (auto simp: findUnique_None_ids)
      from Suc.IH[OF this de] de show ?thesis by (simp add: dependencyDate_def)
    qed
    then have "dates = map ?g (d0 # ds)" by (intro those_map_eq[OF d]) blast
    then have "set dates = ?g ` set (dependencies s t)" using Cons by simp
    moreover have step: "sourceDates s t = (\<Union>dep \<in> set (dependencies s t). sourceDates s (id_todo dep))"
      using Suc.prems(1) Cons by (intro sourceDates_step) simp_all
    moreover have "Max (\<Union>dep \<in> set (dependencies s t). sourceDates s (id_todo dep)) =
        Max (?g ` set (dependencies s t))"
      using each Cons by (intro Max_Union_Max) (auto simp: finite_sourceDates)
    moreover have "sourceDates s t \<noteq> {}" using each Cons step by auto
    ultimately show ?thesis using r by simp
  qed
qed

text \<open>
  C8. For every existing todo with no dependencies, the computed earliest start is the todo's
  own creation date, and not \<^verbatim>\<open>null\<close>: the call returns at the first level of the recursion.
\<close>

theorem no_dependencies_earliestStart_is_createdAt:
  assumes "findUnique s t = Some todo" and "dependencies s t = []"
  shows "calculateEarliestStart (Suc fuel) s t = Some (Some (createdAt todo))"
  using assms by simp

theorem no_dependencies_earliestStart_is_createdAt_witness:
  "findUnique (scenario (day 2) (day 3)) 1 = Some (create 1 ''A'' None (day 1)) \<and>
   dependencies (scenario (day 2) (day 3)) 1 = [] \<and>
   calculateEarliestStart (Suc 0) (scenario (day 2) (day 3)) 1 = Some (Some (day 1))"
proof -
  have a: "findUnique (scenario (day 2) (day 3)) 1 = Some (create 1 ''A'' None (day 1))"
    by (simp add: findUnique_def scenario_def create_def)
  have b: "dependencies (scenario (day 2) (day 3)) 1 = []"
    by (simp add: dependencies_def scenario_def)
  from no_dependencies_earliestStart_is_createdAt[OF a b, of 0] a b show ?thesis
    by (simp add: create_def)
qed

text \<open>
  C4, as the code has it. For every todo of the table with a dependency, whenever the
  computation returns it returns a date, and that date is at least the earliest start
  computed for each dependency. The earliest start computed for a dependency is never
  \<^verbatim>\<open>null\<close>, so the stored earliest start, the due date and the creation date of the
  dependency are not used: the date returned is the latest creation date among the todos
  without dependencies that the todo reaches. In an acyclic store the computation returns.
\<close>

theorem earliestStart_is_latest_source_date:
  assumes "findUnique s t = Some todo"
    and "dep \<in> set (dependencies s t)"
  shows "(\<forall>fuel r. calculateEarliestStart fuel s t = Some r \<longrightarrow>
            (\<exists>e depEarliestStart.
               r = Some e \<and>
               calculateEarliestStart (fuel - 1) s (id_todo dep) = Some (Some depEarliestStart) \<and>
               depEarliestStart \<le> e \<and>
               e = Max (sourceDates s t))) \<and>
         (acyclic (set (todoDependencies s)) \<longrightarrow>
            (\<exists>fuel e. calculateEarliestStart fuel s t = Some (Some e)))"
proof -
  have bound: "\<exists>e depEarliestStart.
           r = Some e \<and>
           calculateEarliestStart (fuel - 1) s (id_todo dep) = Some (Some depEarliestStart) \<and>
           depEarliestStart \<le> e \<and> e = Max (sourceDates s t)"
    if ret: "calculateEarliestStart fuel s t = Some r" for fuel r
  proof -
    from ret obtain n where fuel: "fuel = Suc n" by (cases fuel) auto
    from assms(2) obtain d ds where deps: "dependencies s t = d # ds"
      by (cases "dependencies s t") auto
    let ?f = "\<lambda>dep. case calculateEarliestStart n s (id_todo dep) of
                            None \<Rightarrow> None
                          | Some depEarliestStart \<Rightarrow> Some (dependencyDate depEarliestStart dep)"
    from assms(1) ret fuel deps obtain dates where
      d: "those (map ?f (d # ds)) = Some dates" and r: "r = Some (Max (set dates))"
      by (auto split: option.splits)
    from assms(2) deps have "dep \<in> set (d # ds)" by simp
    from those_map_member[OF d this] obtain x where x: "x \<in> set dates" "?f dep = Some x"
      by blast
    from x(2) obtain de where de: "calculateEarliestStart n s (id_todo dep) = Some de"
      "x = dependencyDate de dep" by (auto split: option.splits)
    from assms(2) have "id_todo dep \<in> ids s" by (rule dependencies_ids)
    then obtain row where row: "findUnique s (id_todo dep) = Some row"
      by (cases "findUnique s (id_todo dep)") (auto simp: findUnique_None_ids)
    from calculateEarliestStart_not_null[OF row de(1)] obtain v where v: "de = Some v" by auto
    with de(2) have xv: "x = v" by (simp add: dependencyDate_def)
    from x(1) have "x \<le> Max (set dates)" by simp
    moreover from calculateEarliestStart_closed_form[OF assms(1) ret] r
    have "Max (set dates) = Max (sourceDates s t)" by simp
    ultimately show ?thesis using r de(1) v xv fuel by simp
  qed
  have "\<exists>fuel e. calculateEarliestStart fuel s t = Some (Some e)"
    if "acyclic (set (todoDependencies s))"
  proof -
    from calculateEarliestStart_returns[OF acyclic_no_reachable_cycle[OF that]]
    obtain fuel r where ret: "calculateEarliestStart fuel s t = Some r" by blast
    from bound[OF ret] obtain e where "r = Some e" by blast
    with ret show ?thesis by blast
  qed
  with bound show ?thesis by blast
qed

theorem earliestStart_is_latest_source_date_witness:
  "findUnique (afterSecondAdd (day 2) (day 3)) 3 = Some (todos (afterSecondAdd (day 2) (day 3)) ! 2) \<and>
   todos (afterSecondAdd (day 2) (day 3)) ! 1 \<in> set (dependencies (afterSecondAdd (day 2) (day 3)) 3) \<and>
   acyclic (set (todoDependencies (afterSecondAdd (day 2) (day 3)))) \<and>
   calculateEarliestStart 3 (afterSecondAdd (day 2) (day 3)) 3 = Some (Some (day 1)) \<and>
   calculateEarliestStart (3 - 1) (afterSecondAdd (day 2) (day 3))
      (id_todo (todos (afterSecondAdd (day 2) (day 3)) ! 1)) = Some (Some (day 1)) \<and>
   day 1 = Max (sourceDates (afterSecondAdd (day 2) (day 3)) 3) \<and>
   (\<exists>fuel e. calculateEarliestStart fuel (afterSecondAdd (day 2) (day 3)) 3 = Some (Some e))"
proof -
  let ?s = "afterSecondAdd (day 2) (day 3)"
  have a: "findUnique ?s 3 = Some (todos ?s ! 2)" by code_simp
  have b: "todos ?s ! 1 \<in> set (dependencies ?s 3)" by code_simp
  have c: "calculateEarliestStart 3 ?s 3 = Some (Some (day 1))" by code_simp
  have e: "calculateEarliestStart (3 - 1) ?s (id_todo (todos ?s ! 1)) = Some (Some (day 1))"
    by code_simp
  note d = afterSecondAdd_acyclic[of "day 2" "day 3"]
  from earliestStart_is_latest_source_date[OF a b] c
  have "day 1 = Max (sourceDates ?s 3)" by blast
  moreover from earliestStart_is_latest_source_date[OF a b] d
  have "\<exists>fuel e. calculateEarliestStart fuel ?s 3 = Some (Some e)" by blast
  ultimately show ?thesis using a b c d e by blast
qed

text \<open>
  C4 as stated fails after the first add of the scenario: todo 3 depends on todo 2, whose
  stored earliest start is \<^verbatim>\<open>null\<close> and whose due date is day 5, so the date of the claim
  for that dependency is day 5, but the earliest start computed for todo 3 is day 2.
\<close>

theorem earliestStart_below_due_date_counterexample:
  "POST 3 (scenario (day 2) (day 3)) (Some 3) (Some [2]) =
     Some (DependenciesAdded, afterFirstAdd (day 2) (day 3)) \<and>
   dependencies (afterFirstAdd (day 2) (day 3)) 3 = [todos (afterFirstAdd (day 2) (day 3)) ! 1] \<and>
   earliestStart (todos (afterFirstAdd (day 2) (day 3)) ! 1) = None \<and>
   dueDate (todos (afterFirstAdd (day 2) (day 3)) ! 1) = Some (day 5) \<and>
   dependencyDate (earliestStart (todos (afterFirstAdd (day 2) (day 3)) ! 1))
     (todos (afterFirstAdd (day 2) (day 3)) ! 1) = day 5 \<and>
   calculateEarliestStart 3 (afterFirstAdd (day 2) (day 3)) 3 = Some (Some (day 2)) \<and>
   day 2 < day 5"
  by code_simp

text \<open>
  C3, as the code has it. The recursion has no guard against cycles and no error of its own:
  the computation for a todo returns, with some depth of recursion, exactly when no cycle of
  dependencies can be reached from the todo. It returns for every todo of an acyclic store,
  and never for a todo that reaches a cycle.
\<close>

theorem calculateEarliestStart_returns_iff:
  "(\<exists>fuel r. calculateEarliestStart fuel s t = Some r) \<longleftrightarrow>
   \<not> (\<exists>c. (t, c) \<in> (dependsOn s)\<^sup>* \<and> (c, c) \<in> (dependsOn s)\<^sup>+)"
proof
  assume "\<exists>fuel r. calculateEarliestStart fuel s t = Some r"
  then obtain fuel r where r: "calculateEarliestStart fuel s t = Some r" by blast
  show "\<not> (\<exists>c. (t, c) \<in> (dependsOn s)\<^sup>* \<and> (c, c) \<in> (dependsOn s)\<^sup>+)"
  proof
    assume "\<exists>c. (t, c) \<in> (dependsOn s)\<^sup>* \<and> (c, c) \<in> (dependsOn s)\<^sup>+"
    then obtain c where "(t, c) \<in> (dependsOn s)\<^sup>*" "(c, c) \<in> (dependsOn s)\<^sup>+" by blast
    from calculateEarliestStart_on_cycle[OF this(2,1), of fuel] r show False by simp
  qed
next
  assume "\<not> (\<exists>c. (t, c) \<in> (dependsOn s)\<^sup>* \<and> (c, c) \<in> (dependsOn s)\<^sup>+)"
  then show "\<exists>fuel r. calculateEarliestStart fuel s t = Some r"
    by (rule calculateEarliestStart_returns)
qed

theorem calculateEarliestStart_returns_iff_witness:
  "(\<exists>fuel r. calculateEarliestStart fuel (afterSecondAdd (day 2) (day 3)) 3 = Some r) \<and>
   \<not> (\<exists>c. (3, c) \<in> (dependsOn (afterSecondAdd (day 2) (day 3)))\<^sup>* \<and>
          (c, c) \<in> (dependsOn (afterSecondAdd (day 2) (day 3)))\<^sup>+)"
proof -
  have "calculateEarliestStart 3 (afterSecondAdd (day 2) (day 3)) 3 = Some (Some (day 1))"
    by code_simp
  then have a: "\<exists>fuel r. calculateEarliestStart fuel (afterSecondAdd (day 2) (day 3)) 3 = Some r"
    by blast
  with calculateEarliestStart_returns_iff[of "afterSecondAdd (day 2) (day 3)" 3] show ?thesis
    by blast
qed

text \<open>
  C3 as stated fails: in the store where todos 1 and 2 depend on each other the computation
  for todo 1 returns with no depth of recursion, neither a date nor an error.
\<close>

theorem earliestStart_on_cycle_counterexample:
  "\<not> (\<exists>fuel r. calculateEarliestStart fuel cyclicStore 1 = Some r)"
  using calculateEarliestStart_on_cycle[OF cyclicStore_cycle] by simp

section \<open>What the recomputation writes\<close>

lemma update_isCritical_frame:
  assumes g: "\<And>t b. g (t\<lparr>isCritical := b\<rparr>) = g t"
    and u: "update_isCritical s i b = Inr s'"
  shows "map g (todos s') = map g (todos s) \<and> todoDependencies s' = todoDependencies s"
proof -
  from u have s': "s' = s\<lparr>todos := map (\<lambda>t. if id_todo t = i then t\<lparr>isCritical := b\<rparr> else t) (todos s)\<rparr>"
    by (auto simp: update_isCritical_def split: option.splits)
  have "map g (map (\<lambda>t. if id_todo t = i then t\<lparr>isCritical := b\<rparr> else t) xs) = map g xs" for xs
    by (induction xs) (auto simp: g)
  with s' show ?thesis by simp
qed

lemma markCriticalPath_frame:
  assumes g: "\<And>t b. g (t\<lparr>isCritical := b\<rparr>) = g t"
  shows "markCriticalPath n s i = Some (c, s') \<Longrightarrow>
         map g (todos s') = map g (todos s) \<and> todoDependencies s' = todoDependencies s"
proof (induction n arbitrary: s i)
  case 0
  then show ?case by simp
next
  case (Suc n)
  show ?case
  proof (cases "update_isCritical s i True")
    case (Inl e)
    with Suc.prems show ?thesis by simp
  next
    case (Inr s1)
    note f1 = update_isCritical_frame[OF g Inr]
    show ?thesis
    proof (cases "findUnique s1 i")
      case None
      with Suc.prems Inr f1 show ?thesis by simp
    next
      case (Some todo)
      show ?thesis
      proof (cases "dependencies s1 i")
        case Nil
        with Suc.prems Inr Some f1 show ?thesis by simp
      next
        case (Cons d ds)
        with Suc.prems Inr Some
        have "markCriticalPath n s1 (id_todo (latestDependency d (d # ds))) = Some (c, s')"
          by simp
        from Suc.IH[OF this] f1 show ?thesis by simp
      qed
    qed
  qed
qed

lemma markEndNodes_frame:
  assumes g: "\<And>t b. g (t\<lparr>isCritical := b\<rparr>) = g t"
  shows "markEndNodes n s es = Some (c, s') \<Longrightarrow>
         map g (todos s') = map g (todos s) \<and> todoDependencies s' = todoDependencies s"
proof (induction es arbitrary: s)
  case Nil
  then show ?case by simp
next
  case (Cons e es)
  from Cons.prems obtain c1 s1 where m: "markCriticalPath n s (id_todo e) = Some (c1, s1)"
    by (auto split: option.splits)
  note f1 = markCriticalPath_frame[OF g m]
  show ?case
  proof (cases c1)
    case Done
    with Cons.prems m have "markEndNodes n s1 es = Some (c, s')" by simp
    from Cons.IH[OF this] f1 show ?thesis by simp
  next
    case (Threw x)
    with Cons.prems m f1 show ?thesis by simp
  qed
qed

lemma updateMany_isCritical_frame:
  assumes g: "\<And>t b. g (t\<lparr>isCritical := b\<rparr>) = g t"
  shows "map g (todos (updateMany_isCritical s b)) = map g (todos s) \<and>
         todoDependencies (updateMany_isCritical s b) = todoDependencies s"
  by (simp add: updateMany_isCritical_def g)

lemma updateCriticalPathStatus_frame:
  assumes g: "\<And>t b. g (t\<lparr>isCritical := b\<rparr>) = g t"
    and u: "updateCriticalPathStatus n s = Some (c, s')"
  shows "map g (todos s') = map g (todos s) \<and> todoDependencies s' = todoDependencies s"
proof -
  from u have "markEndNodes n (updateMany_isCritical s False)
      (filter (\<lambda>todo. dependents s (id_todo todo) = []) (todos s)) = Some (c, s')"
    by (simp add: updateCriticalPathStatus_def Let_def)
  from markEndNodes_frame[OF g this] updateMany_isCritical_frame[OF g, of s False]
  show ?thesis by simp
qed

lemma otherEarliestStarts_cong:
  assumes "map (\<lambda>x. (id_todo x, earliestStart x)) (todos s') =
           map (\<lambda>x. (id_todo x, earliestStart x)) (todos s)"
  shows "otherEarliestStarts t s' = otherEarliestStarts t s"
proof -
  have f: "\<And>xs. map (\<lambda>x. (id_todo x, earliestStart x)) (filter (\<lambda>x. id_todo x \<noteq> t) xs)
      = filter (\<lambda>p. fst p \<noteq> t) (map (\<lambda>x. (id_todo x, earliestStart x)) xs)"
    by (simp add: filter_map comp_def)
  show ?thesis unfolding otherEarliestStarts_def f assms ..
qed

lemma update_earliestStart_frame:
  assumes "update_earliestStart s t v = Inr s'"
  shows "otherEarliestStarts t s' = otherEarliestStarts t s \<and> todoDependencies s' = todoDependencies s"
proof -
  from assms have s': "s' = s\<lparr>todos := map (\<lambda>x. if id_todo x = t then x\<lparr>earliestStart := v\<rparr> else x) (todos s)\<rparr>"
    by (auto simp: update_earliestStart_def split: option.splits)
  have "map (\<lambda>x. (id_todo x, earliestStart x)) (filter (\<lambda>x. id_todo x \<noteq> t)
          (map (\<lambda>x. if id_todo x = t then x\<lparr>earliestStart := v\<rparr> else x) xs))
      = map (\<lambda>x. (id_todo x, earliestStart x)) (filter (\<lambda>x. id_todo x \<noteq> t) xs)" for xs
    by (induction xs) auto
  with s' show ?thesis by (simp add: otherEarliestStarts_def)
qed

lemma recalculate_frame:
  assumes "recalculate n s t = Some (c, s')"
  shows "otherEarliestStarts t s' = otherEarliestStarts t s"
proof -
  from assms obtain v where v: "calculateEarliestStart n s t = Some v"
    by (auto simp: recalculate_def split: option.splits)
  show ?thesis
  proof (cases "update_earliestStart s t v")
    case (Inl e)
    with assms v show ?thesis by (simp add: recalculate_def)
  next
    case (Inr s2)
    with assms v have "updateCriticalPathStatus n s2 = Some (c, s')"
      by (simp add: recalculate_def)
    from updateCriticalPathStatus_frame[OF _ this, of "\<lambda>x. (id_todo x, earliestStart x)"]
    have "otherEarliestStarts t s' = otherEarliestStarts t s2"
      by (intro otherEarliestStarts_cong) simp
    with update_earliestStart_frame[OF Inr] show ?thesis by simp
  qed
qed

text \<open>
  C10. After an add or a remove on todo \<open>t\<close> that has answered, the persisted earliest start
  of every other todo is what it was: the handlers write the earliest start of \<open>t\<close> alone, and
  the recompute of the critical path writes flags only.
\<close>

theorem edit_keeps_other_earliestStarts:
  "(POST fuel s (Some t) (Some dependencyIds) = Some (r, s') \<longrightarrow>
      otherEarliestStarts t s' = otherEarliestStarts t s) \<and>
   (DELETE fuel s (Some t) (Some dependencyIds) = Some (r, s') \<longrightarrow>
      otherEarliestStarts t s' = otherEarliestStarts t s)"
proof (intro conjI impI)
  assume p: "POST fuel s (Some t) (Some dependencyIds) = Some (r, s')"
  show "otherEarliestStarts t s' = otherEarliestStarts t s"
  proof (cases "update_connect s t dependencyIds")
    case (Inl e)
    with p show ?thesis by (auto simp: POST_def split: option.splits)
  next
    case (Inr s1)
    then have t1: "todos s1 = todos s" by (auto simp: update_connect_def split: if_splits)
    show ?thesis
    proof (cases "recalculate fuel s1 t")
      case None
      with p Inr show ?thesis by (auto simp: POST_def split: option.splits)
    next
      case (Some a)
      obtain c s2 where a: "a = (c, s2)" by (cases a)
      from recalculate_frame[OF Some[unfolded a]] t1
      have "otherEarliestStarts t s2 = otherEarliestStarts t s" by (simp add: otherEarliestStarts_def)
      with p Inr Some a show ?thesis
        by (auto simp: POST_def split: option.splits completion.splits)
    qed
  qed
next
  assume p: "DELETE fuel s (Some t) (Some dependencyIds) = Some (r, s')"
  show "otherEarliestStarts t s' = otherEarliestStarts t s"
  proof (cases "update_disconnect s t dependencyIds")
    case (Inl e)
    with p show ?thesis by (auto simp: DELETE_def)
  next
    case (Inr s1)
    then have t1: "todos s1 = todos s" by (auto simp: update_disconnect_def split: if_splits)
    show ?thesis
    proof (cases "recalculate fuel s1 t")
      case None
      with p Inr show ?thesis by (auto simp: DELETE_def)
    next
      case (Some a)
      obtain c s2 where a: "a = (c, s2)" by (cases a)
      from recalculate_frame[OF Some[unfolded a]] t1
      have "otherEarliestStarts t s2 = otherEarliestStarts t s" by (simp add: otherEarliestStarts_def)
      with p Inr Some a show ?thesis
        by (auto simp: DELETE_def split: completion.splits)
    qed
  qed
qed

theorem edit_keeps_other_earliestStarts_witness:
  "POST 3 (afterFirstAdd (day 2) (day 3)) (Some 2) (Some [1]) =
     Some (DependenciesAdded, afterSecondAdd (day 2) (day 3)) \<and>
   otherEarliestStarts 2 (afterSecondAdd (day 2) (day 3)) =
     otherEarliestStarts 2 (afterFirstAdd (day 2) (day 3)) \<and>
   DELETE 3 (afterSecondAdd (day 2) (day 3)) (Some 2) (Some [1]) =
     Some (DependenciesRemoved,
           (afterFirstAdd (day 2) (day 3))\<lparr>todos := (todos (afterFirstAdd (day 2) (day 3)))
              [1 := (todos (afterFirstAdd (day 2) (day 3)) ! 1)\<lparr>earliestStart := Some (day 2)\<rparr>]\<rparr>) \<and>
   otherEarliestStarts 2 ((afterFirstAdd (day 2) (day 3))\<lparr>todos := (todos (afterFirstAdd (day 2) (day 3)))
              [1 := (todos (afterFirstAdd (day 2) (day 3)) ! 1)\<lparr>earliestStart := Some (day 2)\<rparr>]\<rparr>) =
     otherEarliestStarts 2 (afterSecondAdd (day 2) (day 3)) \<and>
   calculateEarliestStart 3 (afterFirstAdd (day 2) (day 3)) 3 = Some (Some (day 2)) \<and>
   calculateEarliestStart 3 (afterSecondAdd (day 2) (day 3)) 3 = Some (Some (day 1)) \<and>
   otherEarliestStarts 2 (afterSecondAdd (day 2) (day 3)) = [(1, None), (3, Some (day 2))]"
proof -
  let ?s1 = "afterFirstAdd (day 2) (day 3)"
  let ?s2 = "afterSecondAdd (day 2) (day 3)"
  let ?s3 = "?s1\<lparr>todos := (todos ?s1)[1 := (todos ?s1 ! 1)\<lparr>earliestStart := Some (day 2)\<rparr>]\<rparr>"
  have p: "POST 3 ?s1 (Some 2) (Some [1]) = Some (DependenciesAdded, ?s2)" by code_simp
  have d: "DELETE 3 ?s2 (Some 2) (Some [1]) = Some (DependenciesRemoved, ?s3)" by code_simp
  from edit_keeps_other_earliestStarts[of 3 ?s1 2 "[1]" DependenciesAdded ?s2] p
  have 1: "otherEarliestStarts 2 ?s2 = otherEarliestStarts 2 ?s1" by blast
  from edit_keeps_other_earliestStarts[of 3 ?s2 2 "[1]" DependenciesRemoved ?s3] d
  have 2: "otherEarliestStarts 2 ?s3 = otherEarliestStarts 2 ?s2" by blast
  have 3: "calculateEarliestStart 3 ?s1 3 = Some (Some (day 2))" by code_simp
  have 4: "calculateEarliestStart 3 ?s2 3 = Some (Some (day 1))" by code_simp
  have 5: "otherEarliestStarts 2 ?s2 = [(1, None), (3, Some (day 2))]" by code_simp
  from p d 1 2 3 4 5 show ?thesis by blast
qed

section \<open>The critical-path recompute\<close>

lemma markEndNodes_ids:
  "map id_todo xs = map id_todo ys \<Longrightarrow> markEndNodes n s xs = markEndNodes n s ys"
proof (induction xs arbitrary: ys s)
  case Nil
  then show ?case by simp
next
  case (Cons x xs)
  then obtain y ys' where ys: "ys = y # ys'" "id_todo x = id_todo y" "map id_todo xs = map id_todo ys'"
    by (cases ys) auto
  from Cons.IH[OF ys(3)] ys show ?case
    by (simp split: option.splits prod.splits completion.splits)
qed

lemma dependents_empty_iff:
  "dependents s i = [] \<longleftrightarrow> (\<forall>a \<in> set (map id_todo (todos s)). (a, i) \<notin> set (todoDependencies s))"
  by (auto simp: dependents_def filter_empty_conv)

lemma endNodes_ids:
  "map id_todo (filter (\<lambda>todo. dependents s (id_todo todo) = []) (todos s)) =
   filter (\<lambda>i. dependents s i = []) (map id_todo (todos s))"
  by (simp add: filter_map comp_def)

lemma updateCriticalPathStatus_ignores_flags:
  assumes t: "map (\<lambda>t. t\<lparr>isCritical := False\<rparr>) (todos s') = map (\<lambda>t. t\<lparr>isCritical := False\<rparr>) (todos s)"
    and d: "todoDependencies s' = todoDependencies s"
  shows "updateCriticalPathStatus n s' = updateCriticalPathStatus n s"
proof -
  have "map id_todo (map (\<lambda>t. t\<lparr>isCritical := False\<rparr>) (todos s')) =
        map id_todo (map (\<lambda>t. t\<lparr>isCritical := False\<rparr>) (todos s))"
    by (simp only: t)
  then have i: "map id_todo (todos s') = map id_todo (todos s)" by (simp add: comp_def)
  have r: "updateMany_isCritical s' False = updateMany_isCritical s False"
    using t d by (cases s; cases s') (simp add: updateMany_isCritical_def)
  have "\<And>j. (dependents s' j = []) = (dependents s j = [])"
    unfolding dependents_empty_iff i d ..
  then have e: "map id_todo (filter (\<lambda>todo. dependents s' (id_todo todo) = []) (todos s')) =
        map id_todo (filter (\<lambda>todo. dependents s (id_todo todo) = []) (todos s))"
    unfolding endNodes_ids i by simp
  show ?thesis
    unfolding updateCriticalPathStatus_def Let_def r by (rule markEndNodes_ids[OF e])
qed

lemma markCriticalPath_mono:
  "markCriticalPath n s i = Some r \<Longrightarrow> n \<le> m \<Longrightarrow> markCriticalPath m s i = Some r"
proof (induction n arbitrary: m s i)
  case 0
  then show ?case by simp
next
  case (Suc n)
  then obtain m' where m: "m = Suc m'" and le: "n \<le> m'" by (cases m) auto
  show ?case
  proof (cases "update_isCritical s i True")
    case (Inl e)
    with Suc.prems m show ?thesis by simp
  next
    case (Inr s1)
    show ?thesis
    proof (cases "findUnique s1 i")
      case None
      with Suc.prems m Inr show ?thesis by simp
    next
      case (Some todo)
      show ?thesis
      proof (cases "dependencies s1 i")
        case Nil
        with Suc.prems m Inr Some show ?thesis by simp
      next
        case (Cons d ds)
        with Suc.prems Inr Some
        have "markCriticalPath n s1 (id_todo (latestDependency d (d # ds))) = Some r" by simp
        from Suc.IH[OF this le] Inr Some Cons m show ?thesis by simp
      qed
    qed
  qed
qed

lemma markEndNodes_mono:
  "markEndNodes n s es = Some r \<Longrightarrow> n \<le> m \<Longrightarrow> markEndNodes m s es = Some r"
proof (induction es arbitrary: s)
  case Nil
  then show ?case by simp
next
  case (Cons e es)
  from Cons.prems(1) obtain c s1 where a: "markCriticalPath n s (id_todo e) = Some (c, s1)"
    by (auto split: option.splits)
  note b = markCriticalPath_mono[OF a Cons.prems(2)]
  show ?case
  proof (cases c)
    case Done
    with Cons.prems(1) a have "markEndNodes n s1 es = Some r" by simp
    from Cons.IH[OF this Cons.prems(2)] b Done show ?thesis by simp
  next
    case (Threw x)
    with Cons.prems(1) a b show ?thesis by auto
  qed
qed

lemma markCriticalPath_returns:
  assumes w: "wf ((dependsOn s)\<inverse>)"
  shows "i \<in> ids s1 \<Longrightarrow> ids s1 = ids s \<Longrightarrow> todoDependencies s1 = todoDependencies s \<Longrightarrow>
         \<exists>n s'. markCriticalPath n s1 i = Some (Done, s')"
  using w
proof (induction i arbitrary: s1 rule: wf_induct_rule)
  case (less i)
  from less.prems(1) obtain todo where f: "findUnique s1 i = Some todo"
    by (cases "findUnique s1 i") (auto simp: findUnique_None_ids)
  then obtain s2 where u: "update_isCritical s1 i True = Inr s2"
    by (simp add: update_isCritical_def)
  from update_isCritical_frame[OF _ u, of id_todo]
  have fr: "map id_todo (todos s2) = map id_todo (todos s1)" "todoDependencies s2 = todoDependencies s1"
    by simp_all
  note i2 = ids_cong[OF fr(1)]
  from less.prems(1) i2 obtain todo2 where f2: "findUnique s2 i = Some todo2"
    by (cases "findUnique s2 i") (auto simp: findUnique_None_ids)
  show ?case
  proof (cases "dependencies s2 i")
    case Nil
    with u f2 have "markCriticalPath (Suc 0) s1 i = Some (Done, s2)" by simp
    then show ?thesis by blast
  next
    case (Cons d ds)
    let ?l = "latestDependency d (d # ds)"
    have "?l \<in> set (dependencies s2 i)" using latestDependency_in[of d "d # ds"] Cons by auto
    then have "(i, id_todo ?l) \<in> dependsOn s2" and l2: "id_todo ?l \<in> ids s2"
      using less.prems(1) i2 by (auto simp: dependsOn_def dest: dependencies_ids)
    moreover have "dependsOn s2 = dependsOn s"
      using i2 fr(2) less.prems(2,3) by (intro dependsOn_cong) simp_all
    ultimately have "(id_todo ?l, i) \<in> (dependsOn s)\<inverse>" by simp
    from less.IH[OF this l2] i2 fr(2) less.prems(2,3)
    obtain n s' where "markCriticalPath n s2 (id_todo ?l) = Some (Done, s')" by auto
    with u f2 Cons have "markCriticalPath (Suc n) s1 i = Some (Done, s')" by simp
    then show ?thesis by blast
  qed
qed

lemma markEndNodes_returns:
  assumes w: "wf ((dependsOn s)\<inverse>)"
  shows "id_todo ` set es \<subseteq> ids s \<Longrightarrow> ids s1 = ids s \<Longrightarrow>
         todoDependencies s1 = todoDependencies s \<Longrightarrow>
         \<exists>n s'. markEndNodes n s1 es = Some (Done, s')"
proof (induction es arbitrary: s1)
  case Nil
  show ?case by simp
next
  case (Cons e es)
  from Cons.prems have "id_todo e \<in> ids s1" by simp
  from markCriticalPath_returns[OF w this Cons.prems(2,3)]
  obtain n1 s2 where a: "markCriticalPath n1 s1 (id_todo e) = Some (Done, s2)" by blast
  from markCriticalPath_frame[OF _ a, of id_todo]
  have fr: "map id_todo (todos s2) = map id_todo (todos s1)" "todoDependencies s2 = todoDependencies s1"
    by simp_all
  from Cons.prems ids_cong[OF fr(1)] fr(2)
  have "\<exists>n s'. markEndNodes n s2 es = Some (Done, s')" by (intro Cons.IH) simp_all
  then obtain n2 s' where b: "markEndNodes n2 s2 es = Some (Done, s')" by blast
  from markCriticalPath_mono[OF a, of "max n1 n2"] markEndNodes_mono[OF b, of "max n1 n2"]
  have "markEndNodes (max n1 n2) s1 (e # es) = Some (Done, s')" by simp
  then show ?case by blast
qed

lemma updateCriticalPathStatus_returns:
  assumes "acyclic (set (todoDependencies s))"
  shows "\<exists>n s'. updateCriticalPathStatus n s = Some (Done, s')"
proof -
  have "acyclic (dependsOn s)" using assms dependsOn_edges by (rule acyclic_subset)
  with finite_dependsOn have w: "wf ((dependsOn s)\<inverse>)" by (rule finite_acyclic_wf_converse)
  let ?s1 = "updateMany_isCritical s False"
  from updateMany_isCritical_frame[of id_todo s False]
  have fr: "map id_todo (todos ?s1) = map id_todo (todos s)" "todoDependencies ?s1 = todoDependencies s"
    by simp_all
  have "id_todo ` set (filter (\<lambda>todo. dependents s (id_todo todo) = []) (todos s)) \<subseteq> ids s"
    by (auto simp: ids_def)
  from markEndNodes_returns[OF w this ids_cong[OF fr(1)] fr(2)]
  show ?thesis by (simp add: updateCriticalPathStatus_def Let_def)
qed

text \<open>
  C9. The recompute of the critical path is idempotent: run on the store a first run has
  left, it leaves that store again. Marking a todo that is marked already changes nothing:
  the flag is a boolean. In an acyclic store the recompute returns.
\<close>

theorem updateCriticalPathStatus_idempotent:
  "(updateCriticalPathStatus fuel s = Some (c, s') \<longrightarrow>
      updateCriticalPathStatus fuel s' = Some (c, s')) \<and>
   (update_isCritical u i True = Inr u' \<longrightarrow> update_isCritical u' i True = Inr u') \<and>
   (acyclic (set (todoDependencies s)) \<longrightarrow>
      (\<exists>n s1. updateCriticalPathStatus n s = Some (Done, s1)))"
proof (intro conjI impI)
  assume u: "updateCriticalPathStatus fuel s = Some (c, s')"
  from updateCriticalPathStatus_frame[OF _ u, of "\<lambda>t. t\<lparr>isCritical := False\<rparr>"]
  have "updateCriticalPathStatus fuel s' = updateCriticalPathStatus fuel s"
    by (intro updateCriticalPathStatus_ignores_flags) simp_all
  with u show "updateCriticalPathStatus fuel s' = Some (c, s')" by simp
next
  assume m: "update_isCritical u i True = Inr u'"
  let ?f = "\<lambda>t. if id_todo t = i then t\<lparr>isCritical := True\<rparr> else t"
  from m obtain x where f: "findUnique u i = Some x"
    and u': "u' = u\<lparr>todos := map ?f (todos u)\<rparr>"
    by (auto simp: update_isCritical_def split: option.splits)
  have h: "find (\<lambda>t. id_todo t = i) (map ?f xs) \<noteq> None"
    if "find (\<lambda>t. id_todo t = i) xs \<noteq> None" for xs
    using that by (induction xs) auto
  from f have "find (\<lambda>t. id_todo t = i) (todos u) \<noteq> None" by (simp add: findUnique_def)
  from h[OF this] obtain y where y: "findUnique u' i = Some y"
    by (auto simp: findUnique_def u')
  have "map ?f (map ?f xs) = map ?f xs" for xs by (induction xs) auto
  then have "u'\<lparr>todos := map ?f (todos u')\<rparr> = u'" by (simp add: u')
  with y show "update_isCritical u' i True = Inr u'"
    by (simp add: update_isCritical_def)
next
  assume "acyclic (set (todoDependencies s))"
  then show "\<exists>n s1. updateCriticalPathStatus n s = Some (Done, s1)"
    by (rule updateCriticalPathStatus_returns)
qed

theorem updateCriticalPathStatus_idempotent_witness:
  "updateCriticalPathStatus 3
     ((afterSecondAdd (day 2) (day 3))
        \<lparr>todos := map (\<lambda>t. t\<lparr>isCritical := False\<rparr>) (todos (afterSecondAdd (day 2) (day 3)))\<rparr>) =
     Some (Done, afterSecondAdd (day 2) (day 3)) \<and>
   updateCriticalPathStatus 3 (afterSecondAdd (day 2) (day 3)) =
     Some (Done, afterSecondAdd (day 2) (day 3)) \<and>
   update_isCritical (scenario (day 2) (day 3)) 1 True =
     Inr ((scenario (day 2) (day 3))
            \<lparr>todos := (todos (scenario (day 2) (day 3)))
                 [0 := (todos (scenario (day 2) (day 3)) ! 0)\<lparr>isCritical := True\<rparr>]\<rparr>) \<and>
   update_isCritical
     ((scenario (day 2) (day 3))
            \<lparr>todos := (todos (scenario (day 2) (day 3)))
                 [0 := (todos (scenario (day 2) (day 3)) ! 0)\<lparr>isCritical := True\<rparr>]\<rparr>) 1 True =
     Inr ((scenario (day 2) (day 3))
            \<lparr>todos := (todos (scenario (day 2) (day 3)))
                 [0 := (todos (scenario (day 2) (day 3)) ! 0)\<lparr>isCritical := True\<rparr>]\<rparr>) \<and>
   acyclic (set (todoDependencies (afterSecondAdd (day 2) (day 3)))) \<and>
   (\<exists>n s1. updateCriticalPathStatus n (afterSecondAdd (day 2) (day 3)) = Some (Done, s1))"
proof -
  let ?s' = "afterSecondAdd (day 2) (day 3)"
  let ?s = "?s'\<lparr>todos := map (\<lambda>t. t\<lparr>isCritical := False\<rparr>) (todos ?s')\<rparr>"
  let ?u = "scenario (day 2) (day 3)"
  let ?u1 = "?u\<lparr>todos := (todos ?u)[0 := (todos ?u ! 0)\<lparr>isCritical := True\<rparr>]\<rparr>"
  have a: "updateCriticalPathStatus 3 ?s = Some (Done, ?s')" by code_simp
  have b: "update_isCritical ?u 1 True = Inr ?u1" by code_simp
  note c = afterSecondAdd_acyclic[of "day 2" "day 3"]
  from updateCriticalPathStatus_idempotent[where fuel = 3 and s = ?s and c = Done and s' = ?s'
      and i = 1 and u' = ?u1 and u = ?u] a b
  have 1: "updateCriticalPathStatus 3 ?s' = Some (Done, ?s')"
    and 2: "update_isCritical ?u1 1 True = Inr ?u1" by blast+
  from updateCriticalPathStatus_idempotent[where s = ?s'] c
  have 3: "\<exists>n s1. updateCriticalPathStatus n ?s' = Some (Done, s1)" by blast
  from a b c 1 2 3 show ?thesis by blast
qed

section \<open>The loop of POST over the candidates\<close>

lemma checkDependencies_Some:
  "checkDependencies s t ds = Some r \<Longrightarrow>
     (r = SelfDependency \<and> t \<in> set ds) \<or>
     (\<exists>d \<in> set ds. d \<noteq> t \<and> hasCircularDependencies s t d \<and> r = CycleDetected d)"
  by (induction ds) (auto split: if_splits)

lemma checkDependencies_None:
  "checkDependencies s t ds = None \<longleftrightarrow> (\<forall>d \<in> set ds. d \<noteq> t \<and> \<not> hasCircularDependencies s t d)"
  by (induction ds) auto

lemma POST_rejected:
  "findUnique s t = Some todo \<Longrightarrow> checkDependencies s t ds = Some r \<Longrightarrow>
   POST fuel s (Some t) (Some ds) = Some (r, s)"
  by (simp add: POST_def)

lemma checkDependencies_self:
  "t \<in> set ds \<Longrightarrow>
   checkDependencies s t ds =
     (case find (\<lambda>d. hasCircularDependencies s t d) (takeWhile (\<lambda>d. d \<noteq> t) ds) of
        None \<Rightarrow> Some SelfDependency
      | Some d \<Rightarrow> Some (CycleDetected d))"
  by (induction ds) (auto split: option.splits)

text \<open>
  When the loop rejects, nothing has been written: the store is left as it was, and the
  response is for the first candidate of the list that is the todo itself or that the search
  flags.
\<close>

lemma POST_rejection_is_first_failing_candidate:
  assumes "findUnique s t = Some todo"
    and "find (\<lambda>d. d = t \<or> hasCircularDependencies s t d) dependencyIds = Some d"
  shows "POST fuel s (Some t) (Some dependencyIds) =
           Some (if d = t then SelfDependency else CycleDetected d, s)"
proof -
  from assms(2) have "checkDependencies s t dependencyIds =
      Some (if d = t then SelfDependency else CycleDetected d)"
    by (induction dependencyIds) (auto split: if_splits)
  from POST_rejected[OF assms(1) this] show ?thesis .
qed

lemma cycle_after_partial_add:
  "(2, 2) \<in> (dependsOn (aDependsOnB\<lparr>todoDependencies := [(1, 2), (2, 3), (2, 1)]\<rparr>))\<^sup>+"
proof -
  let ?s = "aDependsOnB\<lparr>todoDependencies := [(1, 2), (2, 3), (2, 1)]\<rparr>"
  have a: "(1, 2) \<in> dependsOn ?s"
    by (simp add: dependsOn_def ids_def aDependsOnB_def create_def dependencies_def)
  have b: "(2, 1) \<in> dependsOn ?s"
    by (simp add: dependsOn_def ids_def aDependsOnB_def create_def dependencies_def)
  from b a show ?thesis by (rule trancl_into_trancl2[OF _ r_into_trancl])
qed

lemma aDependsOnB_acyclic: "acyclic (set (todoDependencies aDependsOnB))"
proof (rule acyclicI_order[where f = "\<lambda>x. nat (10 - x)"])
  fix x y assume "(x, y) \<in> set (todoDependencies aDependsOnB)"
  then show "nat (10 - y) < nat (10 - x)" by (auto simp: aDependsOnB_def)
qed

text \<open>
  C5 at a concrete store. Todo 1 depends on todo 2 and the store is acyclic. The add of
  \<open>[3, 1]\<close> to todo 2 holds a candidate that fails: dependency 1 closes a cycle. The call
  should be rejected for candidate 1 and commit nothing. Instead the search flags neither
  candidate, both pairs \<open>(2, 3)\<close> and \<open>(2, 1)\<close> are connected, and the handler never answers.
\<close>

theorem cycle_closing_candidate_is_committed:
  "acyclic (set (todoDependencies aDependsOnB)) \<and>
   (1, 2) \<in> set (todoDependencies aDependsOnB) \<and>
   findUnique aDependsOnB 2 \<noteq> None \<and>
   \<not> hasCircularDependencies aDependsOnB 2 3 \<and>
   \<not> hasCircularDependencies aDependsOnB 2 1 \<and>
   update_connect aDependsOnB 2 [3, 1] =
     Inr (aDependsOnB\<lparr>todoDependencies := [(1, 2), (2, 3), (2, 1)]\<rparr>) \<and>
   (\<forall>fuel. POST fuel aDependsOnB (Some 2) (Some [3, 1]) = None)"
proof -
  let ?s' = "aDependsOnB\<lparr>todoDependencies := [(1, 2), (2, 3), (2, 1)]\<rparr>"
  have a: "(1, 2) \<in> set (todoDependencies aDependsOnB)" by code_simp
  have b: "\<not> hasCircularDependencies aDependsOnB 2 3" by code_simp
  have c: "\<not> hasCircularDependencies aDependsOnB 2 1" by code_simp
  have d: "update_connect aDependsOnB 2 [3, 1] = Inr ?s'" by code_simp
  have e: "findUnique aDependsOnB 2 \<noteq> None" by code_simp
  have "POST fuel aDependsOnB (Some 2) (Some [3, 1]) = None" for fuel
  proof -
    have "calculateEarliestStart fuel ?s' 2 = None"
      by (rule calculateEarliestStart_on_cycle[OF cycle_after_partial_add rtrancl.rtrancl_refl])
    then have "recalculate fuel ?s' 2 = None" by (simp add: recalculate_def)
    with b c d e show ?thesis by (auto simp: POST_def)
  qed
  with aDependsOnB_acyclic a b c d e show ?thesis by blast
qed

text \<open>
  C6, as the code has it. No existence check is made for the listed ids: an add on an existing
  todo that lists an id with no row never succeeds and leaves the store as it was, but the
  response is the generic \<open>ErrorAddingDependencies\<close> of the \<^verbatim>\<open>catch\<close> block, which names no
  id, unless a candidate of the list is rejected first as the todo itself or as flagged by
  the search.
\<close>

theorem missing_dependency_fails_generically:
  assumes "findUnique s t = Some todo"
    and "d \<in> set dependencyIds" and "findUnique s d = None"
  shows "\<exists>r. POST fuel s (Some t) (Some dependencyIds) = Some (r, s) \<and>
           (r = ErrorAddingDependencies \<or> r = SelfDependency \<or>
            (\<exists>x \<in> set dependencyIds. r = CycleDetected x)) \<and>
           (checkDependencies s t dependencyIds = None \<longrightarrow> r = ErrorAddingDependencies)"
proof (cases "checkDependencies s t dependencyIds")
  case None
  from assms(2,3) have "update_connect s t dependencyIds = Inl RecordNotFound"
    by (auto simp: update_connect_def)
  with assms(1) None show ?thesis by (simp add: POST_def)
next
  case (Some r)
  from POST_rejected[OF assms(1) Some] checkDependencies_Some[OF Some] Some
  show ?thesis by auto
qed

theorem missing_dependency_fails_generically_witness:
  "findUnique (scenario (day 2) (day 3)) 3 = Some (todos (scenario (day 2) (day 3)) ! 2) \<and>
   (7::int) \<in> set [2, 7] \<and> findUnique (scenario (day 2) (day 3)) 7 = None \<and>
   checkDependencies (scenario (day 2) (day 3)) 3 [2, 7] = None \<and>
   POST 3 (scenario (day 2) (day 3)) (Some 3) (Some [2, 7]) =
     Some (ErrorAddingDependencies, scenario (day 2) (day 3))"
proof -
  let ?s = "scenario (day 2) (day 3)"
  have a: "findUnique ?s 3 = Some (todos ?s ! 2)" by code_simp
  have b: "(7::int) \<in> set [2, 7]" by simp
  have c: "findUnique ?s 7 = None" by code_simp
  have d: "checkDependencies ?s 3 [2, 7] = None" by code_simp
  from missing_dependency_fails_generically[OF a b c, of 3] a b c d show ?thesis by auto
qed

text \<open>
  C6 as stated fails: todo 3 exists, id 7 has no row, and adding \<open>[7]\<close> to todo 3 answers
  with the generic error, not with a not-found response for 7.
\<close>

theorem missing_dependency_counterexample:
  "findUnique (scenario (day 2) (day 3)) 7 = None \<and>
   POST 3 (scenario (day 2) (day 3)) (Some 3) (Some [7]) =
     Some (ErrorAddingDependencies, scenario (day 2) (day 3))"
  by code_simp

section \<open>What the search in hasCircularDependencies finds\<close>

text \<open>
  The search starts from the candidate and answers \<^verbatim>\<open>true\<close> only when it comes back to the
  candidate or to a todo on its own stack: it never compares with the edited todo. So a
  \<^verbatim>\<open>true\<close> answer needs a cycle that is in the store already.
\<close>

lemma dfs_sound:
  "(\<forall>x\<in>recursionStack st. (x, c) \<in> (dependsOn s)\<^sup>+) \<Longrightarrow> (n, c) \<in> (dependsOn s)\<^sup>* \<Longrightarrow>
     (fst (dfs s n c st) \<longrightarrow> (\<exists>k. (k, k) \<in> (dependsOn s)\<^sup>+)) \<and>
     (\<not> fst (dfs s n c st) \<longrightarrow> c \<in> ids s \<longrightarrow>
        recursionStack (snd (dfs s n c st)) \<subseteq> recursionStack st)"
  "(\<forall>x\<in>recursionStack st. (x, c) \<in> (dependsOn s)\<^sup>*) \<Longrightarrow> (n, c) \<in> (dependsOn s)\<^sup>* \<Longrightarrow>
   c \<in> ids s \<Longrightarrow> set ds \<subseteq> set (dependencies s c) \<Longrightarrow>
     (fst (dfs_loop s n c ds st) \<longrightarrow> (\<exists>k. (k, k) \<in> (dependsOn s)\<^sup>+)) \<and>
     (\<not> fst (dfs_loop s n c ds st) \<longrightarrow>
        recursionStack (snd (dfs_loop s n c ds st)) \<subseteq> recursionStack st - {c})"
proof (induction s n c st and s n c ds st rule: dfs_dfs_loop.induct)
  case (1 s n c st)
  show ?case
  proof (cases "c \<in> recursionStack st")
    case True
    with "1.prems" show ?thesis by auto
  next
    case notstack: False
    show ?thesis
    proof (cases "c \<in> visited st")
      case True
      with notstack show ?thesis by simp
    next
      case notvisited: False
      let ?st1 = "st\<lparr>visited := insert c (visited st),
                     recursionStack := insert c (recursionStack st)\<rparr>"
      show ?thesis
      proof (cases "findUnique s c")
        case None
        then have "c \<notin> ids s" by (simp add: findUnique_None_ids)
        with notstack notvisited None show ?thesis by simp
      next
        case (Some todo)
        then have c: "c \<in> ids s" by (rule findUnique_ids)
        have p: "\<forall>x\<in>recursionStack ?st1. (x, c) \<in> (dependsOn s)\<^sup>*"
          using "1.prems"(1) by auto
        from "1.IH"[OF notstack notvisited refl Some p "1.prems"(2) c subset_refl]
        have "(fst (dfs_loop s n c (dependencies s c) ?st1) \<longrightarrow> (\<exists>k. (k, k) \<in> (dependsOn s)\<^sup>+)) \<and>
          (\<not> fst (dfs_loop s n c (dependencies s c) ?st1) \<longrightarrow>
            recursionStack (snd (dfs_loop s n c (dependencies s c) ?st1)) \<subseteq> recursionStack ?st1 - {c})" .
        moreover have "dfs s n c st = dfs_loop s n c (dependencies s c) ?st1"
          using notstack notvisited Some by (simp add: Let_def)
        ultimately show ?thesis by auto
      qed
    qed
  qed
next
  case (2 s n c st)
  then show ?case by auto
next
  case (3 s n c d rest st)
  from "3.prems"(4) have din: "d \<in> set (dependencies s c)" and rest: "set rest \<subseteq> set (dependencies s c)"
    by auto
  with "3.prems"(3) have edge: "(c, id_todo d) \<in> dependsOn s" by (auto simp: dependsOn_def)
  show ?case
  proof (cases "id_todo d = n")
    case True
    with edge "3.prems"(2) have "(n, n) \<in> (dependsOn s)\<^sup>+" by auto
    with True show ?thesis by auto
  next
    case False
    obtain b st' where r: "dfs s n (id_todo d) st = (b, st')" by (cases "dfs s n (id_todo d) st")
    have p1: "\<forall>x\<in>recursionStack st. (x, id_todo d) \<in> (dependsOn s)\<^sup>+"
      using "3.prems"(1) edge by (auto intro: rtrancl_into_trancl1)
    have p2: "(n, id_todo d) \<in> (dependsOn s)\<^sup>*"
      using "3.prems"(2) edge by auto
    note ih1 = "3.IH"(1)[OF False p1 p2]
    show ?thesis
    proof (cases b)
      case True
      with ih1 r False show ?thesis by auto
    next
      case bf: False
      from ih1 r bf dependencies_ids[OF din] have sub: "recursionStack st' \<subseteq> recursionStack st"
        by auto
      with "3.prems"(1) have p3: "\<forall>x\<in>recursionStack st'. (x, c) \<in> (dependsOn s)\<^sup>*" by auto
      from "3.IH"(2)[OF False r[symmetric] _ p3 "3.prems"(2,3) rest] bf
      have "(fst (dfs_loop s n c rest st') \<longrightarrow> (\<exists>k. (k, k) \<in> (dependsOn s)\<^sup>+)) \<and>
        (\<not> fst (dfs_loop s n c rest st') \<longrightarrow>
           recursionStack (snd (dfs_loop s n c rest st')) \<subseteq> recursionStack st' - {c})"
        by simp
      moreover have "dfs_loop s n c (d # rest) st = dfs_loop s n c rest st'"
        using False r bf by simp
      ultimately show ?thesis using sub by auto
    qed
  qed
qed

lemma hasCircularDependencies_cycle:
  "hasCircularDependencies s t d \<Longrightarrow> \<exists>k. (k, k) \<in> (dependsOn s)\<^sup>+"
  using dfs_sound(1)[of "\<lparr>visited = {}, recursionStack = {}\<rparr>" d s d]
  by (simp add: hasCircularDependencies_def)

lemma acyclic_not_hasCircularDependencies:
  assumes "acyclic (set (todoDependencies s))"
  shows "\<not> hasCircularDependencies s t d"
proof
  assume "hasCircularDependencies s t d"
  then obtain k where "(k, k) \<in> (dependsOn s)\<^sup>+" by (auto dest: hasCircularDependencies_cycle)
  then have "(k, k) \<in> (set (todoDependencies s))\<^sup>+"
    using trancl_mono[OF _ dependsOn_edges] by blast
  with assms show False by (simp add: acyclic_def)
qed

text \<open>
  C7, as the code has it. An add on an existing todo \<open>t\<close> whose list holds \<open>t\<close> is always
  rejected and leaves the store as it was. The candidates are checked in list order, each one
  against \<open>t\<close> first and by the search second: the response is \<open>SelfDependency\<close> when the
  search flags no candidate listed before the first \<open>t\<close>, and otherwise \<open>CycleDetected d\<close>
  for the first candidate \<open>d\<close> that the search flags.
\<close>

theorem self_dependency_rejected:
  assumes "findUnique s t = Some todo" and "t \<in> set dependencyIds"
  shows "POST fuel s (Some t) (Some dependencyIds) =
           Some (case find (\<lambda>d. hasCircularDependencies s t d)
                        (takeWhile (\<lambda>d. d \<noteq> t) dependencyIds) of
                   None \<Rightarrow> SelfDependency
                 | Some d \<Rightarrow> CycleDetected d,
                 s)"
proof -
  from checkDependencies_self[OF assms(2), of s]
  have "checkDependencies s t dependencyIds =
      Some (case find (\<lambda>d. hasCircularDependencies s t d)
                      (takeWhile (\<lambda>d. d \<noteq> t) dependencyIds) of
              None \<Rightarrow> SelfDependency
            | Some d \<Rightarrow> CycleDetected d)"
    by (simp split: option.splits)
  from POST_rejected[OF assms(1) this] show ?thesis .
qed

theorem self_dependency_rejected_witness:
  "findUnique cyclicStore 3 = Some (todos cyclicStore ! 2) \<and>
   (3::int) \<in> set [1, 2, 3] \<and>
   find (\<lambda>d. hasCircularDependencies cyclicStore 3 d) (takeWhile (\<lambda>d. d \<noteq> 3) [1, 2, 3]) = Some 1 \<and>
   POST 0 cyclicStore (Some 3) (Some [1, 2, 3]) = Some (CycleDetected 1, cyclicStore) \<and>
   findUnique (scenario (day 2) (day 3)) 1 = Some (todos (scenario (day 2) (day 3)) ! 0) \<and>
   (1::int) \<in> set [3, 1] \<and>
   find (\<lambda>d. hasCircularDependencies (scenario (day 2) (day 3)) 1 d)
        (takeWhile (\<lambda>d. d \<noteq> 1) [3, 1]) = None \<and>
   POST 0 (scenario (day 2) (day 3)) (Some 1) (Some [3, 1]) =
     Some (SelfDependency, scenario (day 2) (day 3))"
proof -
  let ?s = "scenario (day 2) (day 3)"
  have a: "findUnique cyclicStore 3 = Some (todos cyclicStore ! 2)" by code_simp
  have b: "(3::int) \<in> set [1, 2, 3]" by simp
  have c: "find (\<lambda>d. hasCircularDependencies cyclicStore 3 d)
             (takeWhile (\<lambda>d. d \<noteq> 3) [1, 2, 3]) = Some 1" by code_simp
  have a': "findUnique ?s 1 = Some (todos ?s ! 0)" by code_simp
  have b': "(1::int) \<in> set [3, 1]" by simp
  have c': "find (\<lambda>d. hasCircularDependencies ?s 1 d) (takeWhile (\<lambda>d. d \<noteq> 1) [3, 1]) = None"
    by code_simp
  from self_dependency_rejected[OF a b, of 0] c
  have 1: "POST 0 cyclicStore (Some 3) (Some [1, 2, 3]) = Some (CycleDetected 1, cyclicStore)"
    by simp
  from self_dependency_rejected[OF a' b', of 0] c'
  have 2: "POST 0 ?s (Some 1) (Some [3, 1]) = Some (SelfDependency, ?s)" by simp
  from a b c 1 a' b' c' 2 show ?thesis by blast
qed

text \<open>
  C7 as stated fails in a store that holds a cycle: todo 3 exists and is listed, but the
  search flags candidate 1, listed before it, and the response is \<open>CycleDetected 1\<close>.
\<close>

theorem self_dependency_counterexample:
  "findUnique cyclicStore 3 = Some (todos cyclicStore ! 2) \<and>
   POST 3 cyclicStore (Some 3) (Some [1, 3]) = Some (CycleDetected 1, cyclicStore)"
  by code_simp

section \<open>Adding the edge that closes a cycle\<close>

text \<open>
  C1 at a concrete store. Todo 1 (A) depends on todo 2 (B) after a first add. The add of
  dependency 1 to todo 2 should be rejected with \<open>CycleDetected 1\<close>. Instead the search
  answers \<^verbatim>\<open>false\<close>, the pair \<open>(2, 1)\<close> is connected, the store holds the cycle, and the
  handler never answers, because the earliest start of todo 2 is computed next.
\<close>

theorem cycle_is_admitted:
  "POST 2 (scenario (day 2) (day 3)) (Some 1) (Some [2]) = Some (DependenciesAdded, aDependsOnB) \<and>
   \<not> hasCircularDependencies aDependsOnB 2 1 \<and>
   update_connect aDependsOnB 2 [1] = Inr cyclicStore \<and>
   todoDependencies cyclicStore = [(1, 2), (2, 1)] \<and>
   (\<forall>fuel. POST fuel aDependsOnB (Some 2) (Some [1]) = None)"
proof -
  have a: "POST 2 (scenario (day 2) (day 3)) (Some 1) (Some [2]) = Some (DependenciesAdded, aDependsOnB)"
    by code_simp
  have b: "\<not> hasCircularDependencies aDependsOnB 2 1" by code_simp
  have c: "update_connect aDependsOnB 2 [1] = Inr cyclicStore" by code_simp
  have d: "todoDependencies cyclicStore = [(1, 2), (2, 1)]" by code_simp
  have e: "findUnique aDependsOnB 2 \<noteq> None" by code_simp
  have "POST fuel aDependsOnB (Some 2) (Some [1]) = None" for fuel
  proof -
    have "calculateEarliestStart fuel cyclicStore 2 = None"
      by (rule calculateEarliestStart_on_cycle[OF cyclicStore_cycle(1) rtrancl.rtrancl_refl])
    then have "recalculate fuel cyclicStore 2 = None" by (simp add: recalculate_def)
    with b c e show ?thesis by (auto simp: POST_def)
  qed
  with a b c d show ?thesis by blast
qed

section \<open>The scenario, run\<close>

lemma scenario_first_add:
  "POST (Suc (Suc (Suc k))) (scenario cB cC) (Some 3) (Some [2]) =
     Some (DependenciesAdded, afterFirstAdd cB cC)"
  by (simp add: POST_def hasCircularDependencies_def scenario_def create_def findUnique_def
      dependencies_def update_connect_def recalculate_def update_earliestStart_def
      updateCriticalPathStatus_def dependents_def updateMany_isCritical_def
      update_isCritical_def dependencyDate_def afterFirstAdd_def)

lemma scenario_second_add:
  "POST (Suc (Suc (Suc k))) (afterFirstAdd cB cC) (Some 2) (Some [1]) =
     Some (DependenciesAdded, afterSecondAdd cB cC)"
  by (simp add: POST_def hasCircularDependencies_def afterFirstAdd_def create_def findUnique_def
      dependencies_def update_connect_def recalculate_def update_earliestStart_def
      updateCriticalPathStatus_def dependents_def updateMany_isCritical_def
      update_isCritical_def dependencyDate_def afterSecondAdd_def)

lemma scenario_computed:
  "calculateEarliestStart (Suc (Suc (Suc k))) (afterSecondAdd cB cC) 2 = Some (Some (day 1))"
  "calculateEarliestStart (Suc (Suc (Suc k))) (afterSecondAdd cB cC) 3 = Some (Some (day 1))"
  by (simp_all add: afterSecondAdd_def create_def findUnique_def dependencies_def dependencyDate_def)

text \<open>
  C2, as the code has it. In the scenario, whenever B and C were created, the add of B to C
  and then the add of A to B both succeed. The earliest start computed for B is day 1. The
  earliest start computed for C on the final store is day 1 as well: it is the computed
  earliest start of B, which is never \<^verbatim>\<open>null\<close> and so always wins over the due date of B. The
  value persisted for C is the one of the first add, the creation date of B. All three todos
  are marked critical.
\<close>

theorem scenario_earliestStart_and_critical_path:
  assumes "3 \<le> fuel"
  shows "POST fuel (scenario createdB createdC) (Some 3) (Some [2]) =
           Some (DependenciesAdded, afterFirstAdd createdB createdC) \<and>
         POST fuel (afterFirstAdd createdB createdC) (Some 2) (Some [1]) =
           Some (DependenciesAdded, afterSecondAdd createdB createdC) \<and>
         calculateEarliestStart fuel (afterSecondAdd createdB createdC) 2 = Some (Some (day 1)) \<and>
         calculateEarliestStart fuel (afterSecondAdd createdB createdC) 3 = Some (Some (day 1)) \<and>
         map earliestStart (todos (afterSecondAdd createdB createdC)) =
           [None, Some (day 1), Some createdB] \<and>
         map isCritical (todos (afterSecondAdd createdB createdC)) = [True, True, True]"
proof -
  from assms obtain k where fuel: "fuel = Suc (Suc (Suc k))"
    by (metis Suc_le_D numeral_3_eq_3 Suc_le_mono)
  have "map earliestStart (todos (afterSecondAdd createdB createdC)) =
           [None, Some (day 1), Some createdB]"
    by (simp add: afterSecondAdd_def create_def)
  moreover have "map isCritical (todos (afterSecondAdd createdB createdC)) = [True, True, True]"
    by (simp add: afterSecondAdd_def create_def)
  ultimately show ?thesis
    unfolding fuel using scenario_first_add scenario_second_add scenario_computed by simp
qed

theorem scenario_earliestStart_and_critical_path_witness:
  "(3::nat) \<le> 3 \<and>
   POST 3 (scenario (day 2) (day 3)) (Some 3) (Some [2]) =
     Some (DependenciesAdded, afterFirstAdd (day 2) (day 3)) \<and>
   POST 3 (afterFirstAdd (day 2) (day 3)) (Some 2) (Some [1]) =
     Some (DependenciesAdded, afterSecondAdd (day 2) (day 3)) \<and>
   calculateEarliestStart 3 (afterSecondAdd (day 2) (day 3)) 2 = Some (Some (day 1)) \<and>
   calculateEarliestStart 3 (afterSecondAdd (day 2) (day 3)) 3 = Some (Some (day 1)) \<and>
   map earliestStart (todos (afterSecondAdd (day 2) (day 3))) = [None, Some (day 1), Some (day 2)] \<and>
   map isCritical (todos (afterSecondAdd (day 2) (day 3))) = [True, True, True]"
  using scenario_earliestStart_and_critical_path[of 3 "day 2" "day 3"] by simp

text \<open>
  C2 as stated fails with B created on day 2 and C on day 3: B is due on day 5, but the
  earliest start of C is day 1 when computed on the final store and day 2 as persisted.
\<close>

theorem scenario_earliestStart_counterexample:
  "POST 3 (scenario (day 2) (day 3)) (Some 3) (Some [2]) =
     Some (DependenciesAdded, afterFirstAdd (day 2) (day 3)) \<and>
   POST 3 (afterFirstAdd (day 2) (day 3)) (Some 2) (Some [1]) =
     Some (DependenciesAdded, afterSecondAdd (day 2) (day 3)) \<and>
   dueDate (todos (afterSecondAdd (day 2) (day 3)) ! 1) = Some (day 5) \<and>
   calculateEarliestStart 3 (afterSecondAdd (day 2) (day 3)) 3 \<noteq> Some (Some (day 5)) \<and>
   earliestStart (todos (afterSecondAdd (day 2) (day 3)) ! 2) \<noteq> Some (day 5)"
  by code_simp

end
